theory Spec2Isabelle
  imports Main "HOL-Library.Word"
begin

section \<open>Data model of \<^verbatim>\<open>rpc/api/internal_calls_test.go\<close>\<close>

text \<open>
  Addresses are arrays of 20 bytes (\<^verbatim>\<open>gethcmn.Address\<close>), payloads are byte slices
  (\<^verbatim>\<open>hexutil.Bytes\<close>); both are lists of bytes here. \<^verbatim>\<open>Depth\<close> is an \<^verbatim>\<open>int32\<close>,
  \<^verbatim>\<open>GasLeft\<close> an \<^verbatim>\<open>int64\<close> and \<^verbatim>\<open>StatusCode\<close> a Go \<^verbatim>\<open>int\<close> (64 bits).
\<close>

type_synonym bytes = "8 word list"
type_synonym address = "8 word list"

text \<open>
  The fields of \<^verbatim>\<open>motypes.InternalTxCall\<close> and \<^verbatim>\<open>motypes.InternalTxReturn\<close> that
  \<^verbatim>\<open>buildCallStack\<close> reads. The fields that share a name with a field of
  \<^verbatim>\<open>CallStackNode\<close> carry the prefix \<^verbatim>\<open>call_\<close> or \<^verbatim>\<open>ret_\<close>.
\<close>

record InternalTxCall =
  Depth :: "32 word"
  Sender :: address
  Destination :: address
  call_Input :: bytes

record InternalTxReturn =
  ret_Output :: bytes
  ret_StatusCode :: "64 word"
  ret_GasLeft :: "64 word"

record Transaction =
  InternalTxCalls :: "InternalTxCall list"
  InternalTxReturns :: "InternalTxReturn list"

text \<open>
  \<^verbatim>\<open>CallStackNode\<close> holds pointers to its children. A pointer is an index into the
  store of allocated nodes, so that a node on the stack of open calls and the same node
  in the \<^verbatim>\<open>Calls\<close> of its parent are one object.
\<close>

record CallStackNode =
  depth :: "32 word"
  From :: address
  To :: address
  Input :: bytes
  Output :: bytes
  StatusCode :: "64 word"
  GasLeft :: "64 word"
  Calls :: "nat list"

text \<open>
  The two ways \<^verbatim>\<open>buildCallStack\<close> panics: a run-time error of Go (an index or a slice
  bound out of range), and the explicit \<^verbatim>\<open>panic(fmt.Errorf(...))\<close> of line 79, which
  carries \<^verbatim>\<open>lastNode.depth\<close> and \<^verbatim>\<open>call.Depth\<close>.
\<close>

datatype panic =
  IndexOutOfRange
| SliceBoundsOutOfRange
| DepthError "32 word" "32 word"

text \<open>
  The state of one run: the store of nodes, the local slice \<^verbatim>\<open>nodes\<close> (the stack of
  open calls, its top last) and the transaction object behind the pointer \<^verbatim>\<open>tx\<close>,
  whose field \<^verbatim>\<open>InternalTxReturns\<close> the function re-slices.
\<close>

record state =
  heap :: "CallStackNode list"
  nodes :: "nat list"
  tx :: Transaction

section \<open>\<^verbatim>\<open>buildCallStack\<close>\<close>

text \<open>Lines 44 to 49: the composite literal; the other fields have Go's zero values.\<close>

definition newNode :: "InternalTxCall \<Rightarrow> CallStackNode" where
  "newNode call =
     \<lparr>depth = Depth call, From = Sender call, To = Destination call,
      Input = call_Input call, Output = [], StatusCode = 0, GasLeft = 0, Calls = []\<rparr>"

text \<open>Lines 67 to 69 and 89 to 91: the three assignments from a return event.\<close>

definition resolve :: "InternalTxReturn \<Rightarrow> CallStackNode \<Rightarrow> CallStackNode" where
  "resolve r n =
     n\<lparr>Output := ret_Output r, GasLeft := ret_GasLeft r, StatusCode := ret_StatusCode r\<rparr>"

text \<open>\<^verbatim>\<open>lastNode.Calls = append(lastNode.Calls, newNode)\<close>\<close>

definition appendCall :: "nat \<Rightarrow> nat \<Rightarrow> CallStackNode list \<Rightarrow> CallStackNode list" where
  "appendCall p c h = h[p := (h ! p)\<lparr>Calls := Calls (h ! p) @ [c]\<rparr>]"

text \<open>
  Lines 64 to 72, the loop \<^verbatim>\<open>for i := int32(0); i <= n; i++\<close>. The counter is an
  \<^verbatim>\<open>int32\<close>: \<^verbatim>\<open>i++\<close> wraps. Every round shortens \<^verbatim>\<open>nodes\<close> or panics.
\<close>

function popLoop :: "32 word \<Rightarrow> 32 word \<Rightarrow> state \<Rightarrow> nat \<Rightarrow> panic + (state \<times> nat)" where
  "popLoop i n s lastNode =
     (if sint i \<le> sint n then
        (case InternalTxReturns (tx s) of
           [] \<Rightarrow> Inl IndexOutOfRange
         | lastRet # rest \<Rightarrow>
             if nodes s = [] then Inl SliceBoundsOutOfRange
             else if butlast (nodes s) = [] then Inl IndexOutOfRange
             else popLoop (i + 1) n
                    (s\<lparr>tx := (tx s)\<lparr>InternalTxReturns := rest\<rparr>,
                       heap := (heap s)[lastNode := resolve lastRet (heap s ! lastNode)],
                       nodes := butlast (nodes s)\<rparr>)
                    (last (butlast (nodes s))))
      else Inr (s, lastNode))"
  by pat_completeness auto
termination
  by (relation "measure (\<lambda>(i, n, s, l). length (nodes s))") auto

declare popLoop.simps [simp del]

text \<open>
  Lines 44 to 80: the body of the loop over \<^verbatim>\<open>tx.InternalTxCalls\<close>. The new node is
  allocated first, at the next free index of the store; \<^verbatim>\<open>lastNode\<close> points to a node
  that was there before.
\<close>

definition callStep :: "state \<Rightarrow> InternalTxCall \<Rightarrow> panic + state" where
  "callStep s call =
     (let new = length (heap s);
          h0 = heap s @ [newNode call]
      in if nodes s = [] then Inr (s\<lparr>heap := h0, nodes := nodes s @ [new]\<rparr>)
         else
           let lastNode = last (nodes s);
               lastDepth = depth (heap s ! lastNode)
           in
           if Depth call = lastDepth + 1 then
             Inr (s\<lparr>heap := appendCall lastNode new h0, nodes := nodes s @ [new]\<rparr>)
           else if sint (Depth call) \<le> sint lastDepth then
             (case popLoop 0 (lastDepth - Depth call) (s\<lparr>heap := h0\<rparr>) lastNode of
                Inl e \<Rightarrow> Inl e
              | Inr (s1, lastNode') \<Rightarrow>
                  Inr (s1\<lparr>heap := appendCall lastNode' new (heap s1),
                          nodes := nodes s1 @ [new]\<rparr>))
           else Inl (DepthError lastDepth (Depth call)))"

fun callLoop :: "state \<Rightarrow> InternalTxCall list \<Rightarrow> panic + state" where
  "callLoop s [] = Inr s"
| "callLoop s (call # calls) =
     (case callStep s call of Inl e \<Rightarrow> Inl e | Inr s' \<Rightarrow> callLoop s' calls)"

text \<open>Lines 84 to 92: \<^verbatim>\<open>for len(nodes) > 0\<close>.\<close>

function drainLoop :: "state \<Rightarrow> panic + state" where
  "drainLoop s =
     (if nodes s \<noteq> [] then
        (case InternalTxReturns (tx s) of
           [] \<Rightarrow> Inl IndexOutOfRange
         | ret # rest \<Rightarrow>
             drainLoop
               (s\<lparr>nodes := butlast (nodes s),
                  tx := (tx s)\<lparr>InternalTxReturns := rest\<rparr>,
                  heap := (heap s)[last (nodes s) := resolve ret (heap s ! last (nodes s))]\<rparr>))
      else Inr s)"
  by pat_completeness auto
termination
  by (relation "measure (\<lambda>s. length (nodes s))") auto

declare drainLoop.simps [simp del]

text \<open>
  The whole function, on a store with no node yet and a pointer \<^verbatim>\<open>tx\<close> that is not
  nil. It returns the pointer \<^verbatim>\<open>node0\<close>; the model returns with it the store the
  pointer is read in and the transaction object as the run leaves it.
\<close>

definition init :: "Transaction \<Rightarrow> state" where
  "init t = \<lparr>heap = [], nodes = [], tx = t\<rparr>"

definition buildCallStack ::
  "Transaction \<Rightarrow> panic + (nat \<times> CallStackNode list \<times> Transaction)" where
  "buildCallStack t =
     (case callLoop (init t) (InternalTxCalls t) of
        Inl e \<Rightarrow> Inl e
      | Inr s \<Rightarrow>
          (case nodes s of
             [] \<Rightarrow> Inl IndexOutOfRange
           | node0 # _ \<Rightarrow>
               (case drainLoop s of
                  Inl e \<Rightarrow> Inl e
                | Inr s' \<Rightarrow> Inr (node0, heap s', tx s'))))"

section \<open>The tree behind a pointer\<close>

text \<open>
  The tree a node pointer stands for, as the JSON encoder of the test walks it: the
  node, then the trees of its \<^verbatim>\<open>Calls\<close> in order. The walk is bounded by a number of
  levels; \<open>None\<close> says that the bound was too small.
\<close>

datatype 'a tree = Tree (root: 'a) (children: "'a tree list")

fun toTree :: "nat \<Rightarrow> CallStackNode list \<Rightarrow> nat \<Rightarrow> nat tree option" where
  "toTree 0 h a = None"
| "toTree (Suc k) h a =
     (if a < length h
      then map_option (Tree a) (those (map (toTree k h) (Calls (h ! a))))
      else None)"

fun preorder :: "'a tree \<Rightarrow> 'a list" where
  "preorder (Tree a ts) = a # concat (map preorder ts)"

text \<open>
  The nodes of a tree in post-order: the trees of the \<^verbatim>\<open>Calls\<close> in order, then the node.
  A call ends after the calls made under it, so this is the order in which the calls of
  a call tree end.
\<close>

fun postorder :: "'a tree \<Rightarrow> 'a list" where
  "postorder (Tree a ts) = concat (map postorder ts) @ [a]"

text \<open>
  The call data a node was made from: the four fields copied from the call event, which
  no later statement assigns.
\<close>

definition event_of :: "CallStackNode \<Rightarrow> InternalTxCall" where
  "event_of n = \<lparr>Depth = depth n, Sender = From n, Destination = To n, call_Input = Input n\<rparr>"

section \<open>Example traces\<close>

text \<open>A trace given by the depths of its call events and the remaining gas of its returns.\<close>

definition callAt :: "32 word \<Rightarrow> InternalTxCall" where
  "callAt d = \<lparr>Depth = d, Sender = replicate 20 0, Destination = replicate 20 0, call_Input = []\<rparr>"

definition returnWith :: "64 word \<Rightarrow> InternalTxReturn" where
  "returnWith g = \<lparr>ret_Output = [], ret_StatusCode = 0, ret_GasLeft = g\<rparr>"

definition trace :: "32 word list \<Rightarrow> 64 word list \<Rightarrow> Transaction" where
  "trace ds gs = \<lparr>InternalTxCalls = map callAt ds, InternalTxReturns = map returnWith gs\<rparr>"

section \<open>Well-formed traces\<close>

text \<open>
  The traces that the specification calls well formed (its section 3): there is a first
  call event and its depth is 0, every later event lies below the root (its depth is at
  least 1) and at most one level below the event before it, and there are as many return
  events as call events. Depths are read as signed 32-bit integers.
\<close>

fun wf_from :: "int \<Rightarrow> InternalTxCall list \<Rightarrow> bool" where
  "wf_from d [] \<longleftrightarrow> True"
| "wf_from d (c # cs) \<longleftrightarrow>
     1 \<le> sint (Depth c) \<and> sint (Depth c) \<le> d + 1 \<and> wf_from (sint (Depth c)) cs"

definition wellFormed :: "Transaction \<Rightarrow> bool" where
  "wellFormed t \<longleftrightarrow>
     length (InternalTxReturns t) = length (InternalTxCalls t) \<and>
     (case InternalTxCalls t of [] \<Rightarrow> False | c # cs \<Rightarrow> Depth c = 0 \<and> wf_from 0 cs)"

section \<open>Path labels and receipt records\<close>

text \<open>
  The labeler and the projector of the receipt API (\<^verbatim>\<open>GetTransactionReceipt\<close>) are called
  by the tests and are not among the sources; only the list that
  \<^verbatim>\<open>TestGetTransactionReceipt\<close> expects is. They are modelled from sections 3, 4.2, 4.3
  and 6 of the specification.
\<close>

text \<open>
  Modelled from the spec: the call-kind tag of a call event, as far as the labeler tells
  kinds apart (a value-mutating call and a read-only call). \<^verbatim>\<open>CallStackNode\<close> has no
  such field.
\<close>

datatype call_kind = MutatingCall | ReadOnlyCall


text \<open>Modelled from the spec: the prefix of a path, \<open>call\<close> or \<open>staticcall\<close>.\<close>

definition kindName :: "call_kind \<Rightarrow> string" where
  "kindName k = (case k of MutatingCall \<Rightarrow> ''call'' | ReadOnlyCall \<Rightarrow> ''staticcall'')"

text \<open>Modelled from the spec: the digits of the decimal and hexadecimal renderings.\<close>

definition digitChar :: "nat \<Rightarrow> char" where
  "digitChar d = ''0123456789abcdef'' ! d"

text \<open>Modelled from the spec: the ordinal of a child among its siblings, in decimal.\<close>

fun decimal :: "nat \<Rightarrow> string" where
  "decimal n = (if n < 10 then [digitChar n] else decimal (n div 10) @ [digitChar (n mod 10)])"

text \<open>Modelled from the spec: a number in hexadecimal, without leading zeros.\<close>

fun hexNat :: "nat \<Rightarrow> string" where
  "hexNat n = (if n < 16 then [digitChar n] else hexNat (n div 16) @ [digitChar (n mod 16)])"

declare decimal.simps [simp del] hexNat.simps [simp del]



text \<open>
  Modelled from the spec: the labeler of section 4.2. The walk is in pre-order; a node
  gets the name of its kind, an underscore and its chain of ordinals; the chain of a
  child is the chain of its parent, an underscore and the ordinal of the child. The root
  is \<open>call_0\<close>. The kind of a node is looked up by \<open>kd\<close>.
\<close>

fun labelNode :: "('a \<Rightarrow> call_kind) \<Rightarrow> string \<Rightarrow> string \<Rightarrow> 'a tree \<Rightarrow> ('a \<times> string) list"
  and labelCalls :: "('a \<Rightarrow> call_kind) \<Rightarrow> string \<Rightarrow> nat \<Rightarrow> 'a tree list \<Rightarrow> ('a \<times> string) list"
where
  "labelNode kd name ords (Tree a ts) = (a, name @ ''_'' @ ords) # labelCalls kd ords 0 ts"
| "labelCalls kd ords i [] = []"
| "labelCalls kd ords i (c # cs) =
     labelNode kd (kindName (kd (root c))) (ords @ ''_'' @ decimal i) c @
     labelCalls kd ords (Suc i) cs"

definition pathLabeler :: "('a \<Rightarrow> call_kind) \<Rightarrow> 'a tree \<Rightarrow> ('a \<times> string) list" where
  "pathLabeler kd t = labelNode kd ''call'' ''0'' t"








section \<open>The trace of the tests\<close>






section \<open>Auxiliary notions of the proofs\<close>

text \<open>The loop of lines 64 to 72 run for a given number of rounds.\<close>

fun popN :: "nat \<Rightarrow> state \<Rightarrow> nat \<Rightarrow> panic + (state \<times> nat)" where
  "popN 0 s lastNode = Inr (s, lastNode)"
| "popN (Suc m) s lastNode =
     (case InternalTxReturns (tx s) of
        [] \<Rightarrow> Inl IndexOutOfRange
      | lastRet # rest \<Rightarrow>
          if nodes s = [] then Inl SliceBoundsOutOfRange
          else if butlast (nodes s) = [] then Inl IndexOutOfRange
          else popN m
                 (s\<lparr>tx := (tx s)\<lparr>InternalTxReturns := rest\<rparr>,
                    heap := (heap s)[lastNode := resolve lastRet (heap s ! lastNode)],
                    nodes := butlast (nodes s)\<rparr>)
                 (last (butlast (nodes s))))"

text \<open>Two stores with the same links and the same call data: they differ in results only.\<close>

definition same_links :: "CallStackNode list \<Rightarrow> CallStackNode list \<Rightarrow> bool" where
  "same_links h h' \<longleftrightarrow> map Calls h' = map Calls h \<and> map event_of h' = map event_of h"

text \<open>
  What one round of the loop over the call events does to a state with an open call,
  when it ends \<open>m\<close> open calls first: the links and the call data of the store, the
  stack and the return queue after it.
\<close>

definition stepped :: "nat \<Rightarrow> state \<Rightarrow> InternalTxCall \<Rightarrow> state \<Rightarrow> bool" where
  "stepped m s c s' \<longleftrightarrow>
     m < length (nodes s) \<and> m \<le> length (InternalTxReturns (tx s)) \<and>
     nodes s' = take (length (nodes s) - m) (nodes s) @ [length (heap s)] \<and>
     tx s' = (tx s)\<lparr>InternalTxReturns := drop m (InternalTxReturns (tx s))\<rparr> \<and>
     map Calls (heap s') =
       (map Calls (heap s) @ [[]])
         [nodes s ! (length (nodes s) - Suc m) :=
            Calls (heap s ! (nodes s ! (length (nodes s) - Suc m))) @ [length (heap s)]] \<and>
     map event_of (heap s') = map event_of (heap s) @ [c]"

text \<open>
  The states the loop over the call events reaches from \<open>init t\<close> after the events
  \<open>done\<close>: node \<open>i\<close> of the store was made from event \<open>i\<close>, the stack holds valid
  pointers in the order of allocation, and every node that left the stack has taken one
  event off the return queue.
\<close>

definition reach_inv :: "Transaction \<Rightarrow> InternalTxCall list \<Rightarrow> state \<Rightarrow> bool" where
  "reach_inv t done s \<longleftrightarrow>
     map event_of (heap s) = done \<and>
     (nodes s = [] \<longleftrightarrow> done = []) \<and>
     sorted_wrt (<) (nodes s) \<and>
     (\<forall>a\<in>set (nodes s). a < length (heap s)) \<and>
     length (nodes s) \<le> length done \<and>
     length done - length (nodes s) \<le> length (InternalTxReturns t) \<and>
     tx s = t\<lparr>InternalTxReturns := drop (length done - length (nodes s)) (InternalTxReturns t)\<rparr>"

text \<open>A state with further events at the end of its return queue.\<close>

definition addRets :: "InternalTxReturn list \<Rightarrow> state \<Rightarrow> state" where
  "addRets x s = s\<lparr>tx := (tx s)\<lparr>InternalTxReturns := InternalTxReturns (tx s) @ x\<rparr>\<rparr>"

text \<open>
  A tree of node indices is laid out in the lists of links \<open>cl\<close> (the \<^verbatim>\<open>Calls\<close> of
  every node of a store): every node of the tree is allocated and its links are the
  roots of its subtrees, in order.
\<close>

fun repr :: "nat list list \<Rightarrow> nat tree \<Rightarrow> bool" where
  "repr cl (Tree a ts) \<longleftrightarrow> a < length cl \<and> cl ! a = map root ts \<and> (\<forall>t\<in>set ts. repr cl t)"

text \<open>
  The open calls as frames, the top of the stack first: an open node with the finished
  subtrees under it. The links of an open node are the roots of its finished subtrees,
  followed by the open node above it (\<open>up\<close>), if there is one.
\<close>

fun frames_ok :: "nat list list \<Rightarrow> nat list \<Rightarrow> (nat \<times> nat tree list) list \<Rightarrow> bool" where
  "frames_ok cl up [] \<longleftrightarrow> True"
| "frames_ok cl up ((a, cs) # fs) \<longleftrightarrow>
     a < length cl \<and> cl ! a = map root cs @ up \<and> (\<forall>t\<in>set cs. repr cl t) \<and>
     frames_ok cl [a] fs"

text \<open>The nodes of the frames in pre-order, from the bottom of the stack up.\<close>

fun pre_frames :: "(nat \<times> nat tree list) list \<Rightarrow> nat list" where
  "pre_frames [] = []"
| "pre_frames ((a, cs) # fs) = pre_frames fs @ a # concat (map preorder cs)"

text \<open>
  The stack and the links of a reachable state: the frames are laid out in the store,
  the stack lists the open nodes, and the pre-order of all frames counts the allocated
  nodes in the order of their allocation.
\<close>

definition tree_inv :: "nat list list \<Rightarrow> nat list \<Rightarrow> bool" where
  "tree_inv cl ns \<longleftrightarrow>
     (\<exists>fs. ns = rev (map fst fs) \<and> frames_ok cl [] fs \<and> pre_frames fs = [0..<length cl])"

text \<open>
  Every link of a store leads one level down, and the links of a node are in the order
  of allocation.
\<close>

definition edges_ok :: "CallStackNode list \<Rightarrow> bool" where
  "edges_ok h \<longleftrightarrow>
     (\<forall>p<length h. sorted_wrt (<) (Calls (h ! p)) \<and>
        (\<forall>c\<in>set (Calls (h ! p)).
           c < length h \<and> sint (depth (h ! c)) = sint (depth (h ! p)) + 1))"

text \<open>
  Depths in a reachable state of a trace without negative depths: the open calls lie on
  consecutive levels, from the bottom of the stack up.
\<close>

definition depth_inv :: "state \<Rightarrow> bool" where
  "depth_inv s \<longleftrightarrow>
     (\<forall>a<length (heap s). 0 \<le> sint (depth (heap s ! a))) \<and>
     (\<forall>i<length (nodes s).
        sint (depth (heap s ! (nodes s ! i))) = sint (depth (heap s ! hd (nodes s))) + int i) \<and>
     edges_ok (heap s)"

text \<open>The three fields of a node that a return event is assigned to.\<close>

definition result_of :: "CallStackNode \<Rightarrow> InternalTxReturn" where
  "result_of n =
     \<lparr>ret_Output = Output n, ret_StatusCode = StatusCode n, ret_GasLeft = GasLeft n\<rparr>"



section \<open>Signed 32-bit arithmetic\<close>

lemma sint32_bounds: "- 2147483648 \<le> sint (x :: 32 word) \<and> sint x \<le> 2147483647"
  using sint_ge [of x] sint_lt [of x] by simp

lemma sint32_succ: "sint (x :: 32 word) < 2147483647 \<Longrightarrow> sint (x + 1) = sint x + 1"
  using sint32_bounds [of x]
  by (simp add: sint_word_add signed_take_bit_int_eq_self)

lemma sint32_diff:
  "- 2147483648 \<le> sint (a :: 32 word) - sint b \<Longrightarrow> sint a - sint b \<le> 2147483647
   \<Longrightarrow> sint (a - b) = sint a - sint b"
  by (simp add: sint_word_diff signed_take_bit_int_eq_self)

lemma popLoop_popN:
  "sint n < 2147483647 \<Longrightarrow> m = nat (sint n + 1 - sint i)
   \<Longrightarrow> popLoop i n s l = popN m s l"
proof (induction m arbitrary: i s l)
  case 0
  then have "\<not> sint i \<le> sint n" by simp
  then show ?case by (simp add: popLoop.simps)
next
  case (Suc m)
  then have le: "sint i \<le> sint n" by simp
  with Suc.prems have s1: "sint (i + 1) = sint i + 1" by (simp add: sint32_succ)
  have m: "m = nat (sint n + 1 - sint (i + 1))" using Suc.prems s1 by simp
  show ?case
    using le Suc.IH [OF Suc.prems(1) m]
    by (subst popLoop.simps) (simp split: list.splits)
qed

lemma popLoop_max:
  "sint n = 2147483647 \<Longrightarrow> \<exists>e. popLoop i n s l = Inl e"
proof (induction i n s l rule: popLoop.induct)
  case (1 i n s lastNode)
  have le: "sint i \<le> sint n" using sint32_bounds [of i] 1(2) by simp
  show ?case
  proof (cases "InternalTxReturns (tx s)")
    case Nil
    then show ?thesis using le by (subst popLoop.simps) simp
  next
    case (Cons r rest)
    show ?thesis
    proof (cases "nodes s = [] \<or> butlast (nodes s) = []")
      case True
      then show ?thesis using le Cons by (subst popLoop.simps) auto
    next
      case False
      then show ?thesis
        using le Cons 1(1) [OF le Cons] 1(2)
        by (subst popLoop.simps) auto
    qed
  qed
qed

section \<open>The inner loop and one call event\<close>

lemma same_links_refl [simp]: "same_links h h"
  by (simp add: same_links_def)

lemma same_links_trans: "same_links h h' \<Longrightarrow> same_links h' h'' \<Longrightarrow> same_links h h''"
  by (simp add: same_links_def)


lemma map_update_same:
  assumes "f x = f (h ! a)"
  shows "map f (h[a := x]) = map f h"
proof (cases "a < length h")
  case True
  then show ?thesis using assms by (simp add: map_update list_update_same_conv)
next
  case False
  then have "h[a := x] = h" by (intro list_update_beyond) simp
  then show ?thesis by simp
qed

lemma same_links_resolve: "same_links h (h[a := resolve r (h ! a)])"
  by (simp add: same_links_def map_update_same resolve_def event_of_def)

lemma popN_Inr:
  "popN m s l = Inr (s', l') \<Longrightarrow> nodes s \<noteq> [] \<Longrightarrow> l = last (nodes s) \<Longrightarrow>
     m \<le> length (InternalTxReturns (tx s)) \<and> m < length (nodes s) \<and>
     nodes s' = take (length (nodes s) - m) (nodes s) \<and> l' = last (nodes s') \<and>
     tx s' = (tx s)\<lparr>InternalTxReturns := drop m (InternalTxReturns (tx s))\<rparr> \<and>
     same_links (heap s) (heap s')"
proof (induction m arbitrary: s l)
  case 0
  then show ?case by auto
next
  case (Suc m)
  from Suc.prems obtain r rest where rets: "InternalTxReturns (tx s) = r # rest"
    by (cases "InternalTxReturns (tx s)") auto
  from Suc.prems rets have ne: "butlast (nodes s) \<noteq> []"
    by (auto split: if_splits)
  let ?s1 = "s\<lparr>tx := (tx s)\<lparr>InternalTxReturns := rest\<rparr>,
                heap := (heap s)[l := resolve r (heap s ! l)],
                nodes := butlast (nodes s)\<rparr>"
  from Suc.prems rets ne have run: "popN m ?s1 (last (butlast (nodes s))) = Inr (s', l')"
    by simp
  have ih: "m \<le> length (InternalTxReturns (tx ?s1)) \<and> m < length (nodes ?s1) \<and>
     nodes s' = take (length (nodes ?s1) - m) (nodes ?s1) \<and> l' = last (nodes s') \<and>
     tx s' = (tx ?s1)\<lparr>InternalTxReturns := drop m (InternalTxReturns (tx ?s1))\<rparr> \<and>
     same_links (heap ?s1) (heap s')"
    by (rule Suc.IH [OF run]) (use ne in simp_all)
  have tk: "take (length (nodes s) - Suc m) (butlast (nodes s)) = take (length (nodes s) - Suc m) (nodes s)"
    by (simp add: butlast_conv_take)
  show ?case
    using ih rets tk same_links_trans [OF same_links_resolve [of "heap s" l r], of "heap s'"]
    by (simp add: less_diff_conv)
qed

lemma event_of_newNode [simp]: "event_of (newNode c) = c"
  by (simp add: event_of_def newNode_def)

lemma Calls_newNode [simp]: "Calls (newNode c) = []"
  by (simp add: newNode_def)

lemma map_Calls_appendCall:
  "map Calls (appendCall p c h) = (map Calls h)[p := Calls (h ! p) @ [c]]"
  by (simp add: appendCall_def map_update)

lemma map_event_appendCall: "map event_of (appendCall p c h) = map event_of h"
  by (simp add: appendCall_def map_update_same event_of_def)

lemma popN_stepped:
  assumes run: "popN m (s\<lparr>heap := heap s @ [newNode c]\<rparr>) (last (nodes s)) = Inr (s1, l1)"
    and ne: "nodes s \<noteq> []"
    and valid: "\<forall>a\<in>set (nodes s). a < length (heap s)"
  shows "stepped m s c
           (s1\<lparr>heap := appendCall l1 (length (heap s)) (heap s1),
               nodes := nodes s1 @ [length (heap s)]\<rparr>)"
proof -
  let ?s0 = "s\<lparr>heap := heap s @ [newNode c]\<rparr>"
  have f: "m \<le> length (InternalTxReturns (tx ?s0)) \<and> m < length (nodes ?s0) \<and>
     nodes s1 = take (length (nodes ?s0) - m) (nodes ?s0) \<and> l1 = last (nodes s1) \<and>
     tx s1 = (tx ?s0)\<lparr>InternalTxReturns := drop m (InternalTxReturns (tx ?s0))\<rparr> \<and>
     same_links (heap ?s0) (heap s1)"
    by (rule popN_Inr [OF run]) (use ne in simp_all)
  let ?k = "length (nodes s) - m"
  from f have k: "0 < ?k" "?k \<le> length (nodes s)" by simp_all
  have l1: "l1 = nodes s ! (length (nodes s) - Suc m)"
  proof -
    have "take ?k (nodes s) \<noteq> []" using k ne by simp
    then have "last (take ?k (nodes s)) = take ?k (nodes s) ! (?k - 1)"
      using k by (simp add: last_conv_nth)
    also have "\<dots> = nodes s ! (?k - 1)" using k by simp
    finally show ?thesis using f by simp
  qed
  have "nodes s ! (length (nodes s) - Suc m) \<in> set (nodes s)"
    using ne by (intro nth_mem) simp
  with valid have l1v: "l1 < length (heap s)"
    unfolding l1 by blast
  have links: "map Calls (heap s1) = map Calls (heap s) @ [[]]"
    and evs: "map event_of (heap s1) = map event_of (heap s) @ [c]"
    using f by (simp_all add: same_links_def)
  have len: "length (heap s1) = Suc (length (heap s))"
    using links by (metis length_map length_append_singleton)
  have "Calls (heap s1 ! l1) = map Calls (heap s1) ! l1"
    using l1v len by simp
  also have "\<dots> = Calls (heap s ! l1)"
    using l1v by (simp add: links nth_append)
  finally have c1: "Calls (heap s1 ! l1) = Calls (heap s ! l1)" .
  show ?thesis
    unfolding stepped_def
    using f c1 links evs l1 by (simp add: map_Calls_appendCall map_event_appendCall)
qed

lemma callStep_first:
  "nodes s = [] \<Longrightarrow>
   callStep s c = Inr (s\<lparr>heap := heap s @ [newNode c], nodes := [length (heap s)]\<rparr>)"
  by (simp add: callStep_def)

lemma callStep_Inr:
  assumes run: "callStep s c = Inr s'"
    and ne: "nodes s \<noteq> []"
    and valid: "\<forall>a\<in>set (nodes s). a < length (heap s)"
  shows "\<exists>m. stepped m s c s' \<and>
           (Depth c = depth (heap s ! last (nodes s)) + 1 \<and> m = 0 \<or>
            Depth c \<noteq> depth (heap s ! last (nodes s)) + 1 \<and>
            sint (Depth c) \<le> sint (depth (heap s ! last (nodes s))) \<and>
            sint (depth (heap s ! last (nodes s)) - Depth c) < 2147483647 \<and>
            m = nat (sint (depth (heap s ! last (nodes s)) - Depth c) + 1))"
proof -
  let ?l = "last (nodes s)"
  let ?s0 = "s\<lparr>heap := heap s @ [newNode c]\<rparr>"
  let ?top = "depth (heap s ! ?l)"
  show ?thesis
  proof (cases "Depth c = ?top + 1")
    case True
    have "popN 0 ?s0 ?l = Inr (?s0, ?l)" by simp
    from popN_stepped [OF this ne valid] run True ne
    show ?thesis by (auto simp: callStep_def Let_def)
  next
    case False
    with run ne have le: "sint (Depth c) \<le> sint ?top"
      by (auto simp: callStep_def Let_def split: if_splits)
    let ?n = "?top - Depth c"
    from run ne False le obtain s1 l1 where
      pl: "popLoop 0 ?n ?s0 ?l = Inr (s1, l1)"
      and s': "s' = s1\<lparr>heap := appendCall l1 (length (heap s)) (heap s1),
                       nodes := nodes s1 @ [length (heap s)]\<rparr>"
      by (auto simp: callStep_def Let_def split: sum.splits)
    have nmax: "sint ?n < 2147483647"
    proof (rule ccontr)
      assume "\<not> sint ?n < 2147483647"
      then have "sint ?n = 2147483647" using sint32_bounds [of ?n] by simp
      from popLoop_max [OF this, of 0 ?s0 ?l] pl show False by simp
    qed
    define m where "m = nat (sint ?n + 1)"
    have "popLoop 0 ?n ?s0 ?l = popN m ?s0 ?l"
      by (rule popLoop_popN [OF nmax]) (simp add: m_def)
    with pl have "popN m ?s0 ?l = Inr (s1, l1)" by simp
    from popN_stepped [OF this ne valid] s' have "stepped m s c s'" by simp
    then show ?thesis using False le nmax m_def by blast
  qed
qed

section \<open>Reachable states and the return queue\<close>

lemma callLoop_append:
  "callLoop s (xs @ ys) = (case callLoop s xs of Inl e \<Rightarrow> Inl e | Inr s' \<Rightarrow> callLoop s' ys)"
  by (induction xs arbitrary: s) (auto split: sum.splits)

lemma drainLoop_Inr:
  "drainLoop s = Inr s' \<Longrightarrow>
     length (nodes s) \<le> length (InternalTxReturns (tx s)) \<and> nodes s' = [] \<and>
     tx s' = (tx s)\<lparr>InternalTxReturns := drop (length (nodes s)) (InternalTxReturns (tx s))\<rparr> \<and>
     same_links (heap s) (heap s')"
proof (induction s rule: drainLoop.induct)
  case (1 s)
  show ?case
  proof (cases "nodes s = []")
    case True
    with 1(2) show ?thesis by (simp add: drainLoop.simps)
  next
    case False
    with 1(2) obtain r rest where rets: "InternalTxReturns (tx s) = r # rest"
      by (cases "InternalTxReturns (tx s)") (auto simp: drainLoop.simps)
    let ?s1 = "s\<lparr>nodes := butlast (nodes s),
                  tx := (tx s)\<lparr>InternalTxReturns := rest\<rparr>,
                  heap := (heap s)[last (nodes s) := resolve r (heap s ! last (nodes s))]\<rparr>"
    from 1(2) False rets have run: "drainLoop ?s1 = Inr s'"
      by (subst (asm) drainLoop.simps) simp
    note ih = 1(1) [OF False rets run]
    obtain k where k: "length (nodes s) = Suc k"
      using False by (cases "nodes s") auto
    show ?thesis
      using ih rets k
        same_links_trans [OF same_links_resolve [of "heap s" "last (nodes s)" r], of "heap s'"]
      by simp
  qed
qed

lemma drainLoop_ok:
  "length (nodes s) \<le> length (InternalTxReturns (tx s)) \<Longrightarrow> \<exists>s'. drainLoop s = Inr s'"
proof (induction s rule: drainLoop.induct)
  case (1 s)
  show ?case
  proof (cases "nodes s = []")
    case True
    then show ?thesis by (simp add: drainLoop.simps)
  next
    case False
    with 1(2) obtain r rest where rets: "InternalTxReturns (tx s) = r # rest"
      by (cases "InternalTxReturns (tx s)") auto
    have "\<exists>s'. drainLoop (s\<lparr>nodes := butlast (nodes s),
                  tx := (tx s)\<lparr>InternalTxReturns := rest\<rparr>,
                  heap := (heap s)[last (nodes s) := resolve r (heap s ! last (nodes s))]\<rparr>) = Inr s'"
      by (rule 1(1) [OF False rets]) (use 1(2) rets False in simp)
    then show ?thesis using False rets by (subst drainLoop.simps) simp
  qed
qed

lemma reach_inv_init: "reach_inv t [] (init t)"
  by (simp add: reach_inv_def init_def)

lemma reach_inv_stepped:
  assumes inv: "reach_inv t done s" and st: "stepped m s c s'"
  shows "reach_inv t (done @ [c]) s'"
proof -
  let ?len = "length (nodes s)"
  from st have m: "m < ?len" "m \<le> length (InternalTxReturns (tx s))"
    and ns: "nodes s' = take (?len - m) (nodes s) @ [length (heap s)]"
    and tx': "tx s' = (tx s)\<lparr>InternalTxReturns := drop m (InternalTxReturns (tx s))\<rparr>"
    and ev: "map event_of (heap s') = map event_of (heap s) @ [c]"
    by (simp_all add: stepped_def)
  from ev have len': "length (heap s') = Suc (length (heap s))"
    by (metis length_map length_append_singleton)
  from inv have evs: "map event_of (heap s) = done"
    and srt: "sorted_wrt (<) (nodes s)"
    and valid: "\<forall>a\<in>set (nodes s). a < length (heap s)"
    and cnt: "?len \<le> length done" "length done - ?len \<le> length (InternalTxReturns t)"
    and txs: "tx s = t\<lparr>InternalTxReturns := drop (length done - ?len) (InternalTxReturns t)\<rparr>"
    by (simp_all add: reach_inv_def)
  have tk: "set (take (?len - m) (nodes s)) \<subseteq> set (nodes s)" by (rule set_take_subset)
  have s1: "sorted_wrt (<) (nodes s')"
    unfolding ns using srt valid tk
    by (auto simp: sorted_wrt_append intro: sorted_wrt_take)
  have s2: "\<forall>a\<in>set (nodes s'). a < length (heap s')"
    unfolding ns len' using valid tk by (auto simp: less_Suc_eq)
  have mrem: "m \<le> length (InternalTxReturns t) - (length done - ?len)"
    using m(2) txs by simp
  have s3: "tx s' = t\<lparr>InternalTxReturns :=
              drop (length (done @ [c]) - length (nodes s')) (InternalTxReturns t)\<rparr>"
  proof -
    have "length (done @ [c]) - length (nodes s') = m + (length done - ?len)"
      using m(1) cnt(1) ns by simp
    then show ?thesis using tx' txs by simp
  qed
  show ?thesis
    unfolding reach_inv_def
    using s1 s2 s3 ev evs ns m cnt mrem by auto
qed

lemma reach_inv_step:
  assumes inv: "reach_inv t done s" and run: "callStep s c = Inr s'"
  shows "reach_inv t (done @ [c]) s'"
proof (cases "nodes s = []")
  case True
  with inv have "done = []" "heap s = []" by (auto simp: reach_inv_def)
  with inv run True show ?thesis
    by (auto simp: callStep_first reach_inv_def)
next
  case False
  from inv have "\<forall>a\<in>set (nodes s). a < length (heap s)" by (simp add: reach_inv_def)
  from callStep_Inr [OF run False this] obtain m where "stepped m s c s'" by blast
  from reach_inv_stepped [OF inv this] show ?thesis .
qed

lemma reach_inv_loop:
  "reach_inv t done s \<Longrightarrow> callLoop s cs = Inr s' \<Longrightarrow> reach_inv t (done @ cs) s'"
proof (induction cs arbitrary: s "done")
  case Nil
  then show ?case by simp
next
  case (Cons c cs)
  from Cons.prems(2) obtain s1 where st: "callStep s c = Inr s1" and lp: "callLoop s1 cs = Inr s'"
    by (auto split: sum.splits)
  from Cons.IH [OF reach_inv_step [OF Cons.prems(1) st] lp] show ?case by simp
qed

lemma build_Inr:
  assumes "buildCallStack t = Inr (r, h, t')"
  obtains s where "callLoop (init t) (InternalTxCalls t) = Inr s" "nodes s \<noteq> []"
    "r = hd (nodes s)" "same_links (heap s) h"
    "length (nodes s) \<le> length (InternalTxReturns (tx s))"
    "t' = (tx s)\<lparr>InternalTxReturns := drop (length (nodes s)) (InternalTxReturns (tx s))\<rparr>"
proof -
  from assms obtain s where lp: "callLoop (init t) (InternalTxCalls t) = Inr s"
    by (auto simp: buildCallStack_def split: sum.splits)
  with assms obtain n0 ns where ns: "nodes s = n0 # ns"
    by (auto simp: buildCallStack_def split: sum.splits list.splits)
  with assms lp obtain s' where dr: "drainLoop s = Inr s'" and res: "r = n0" "h = heap s'" "t' = tx s'"
    by (auto simp: buildCallStack_def split: sum.splits)
  from drainLoop_Inr [OF dr] ns res lp that [of s] show thesis by simp
qed

lemma build_consumes:
  assumes "buildCallStack t = Inr (r, h, t')"
  shows "length (InternalTxCalls t) \<le> length (InternalTxReturns t) \<and>
         t' = t\<lparr>InternalTxReturns := drop (length (InternalTxCalls t)) (InternalTxReturns t)\<rparr>"
proof -
  from assms obtain s where lp: "callLoop (init t) (InternalTxCalls t) = Inr s"
    and le: "length (nodes s) \<le> length (InternalTxReturns (tx s))"
    and t': "t' = (tx s)\<lparr>InternalTxReturns := drop (length (nodes s)) (InternalTxReturns (tx s))\<rparr>"
    by (rule build_Inr)
  from reach_inv_loop [OF reach_inv_init lp] have inv: "reach_inv t (InternalTxCalls t) s" by simp
  let ?c = "length (InternalTxCalls t)" and ?n = "length (nodes s)"
  from inv have cnt: "?n \<le> ?c" "?c - ?n \<le> length (InternalTxReturns t)"
    and txs: "tx s = t\<lparr>InternalTxReturns := drop (?c - ?n) (InternalTxReturns t)\<rparr>"
    by (simp_all add: reach_inv_def)
  from le txs have "?n \<le> length (InternalTxReturns t) - (?c - ?n)" by simp
  with cnt have a: "?c \<le> length (InternalTxReturns t)" by simp
  have "?n + (?c - ?n) = ?c" using cnt by simp
  with t' txs have "t' = t\<lparr>InternalTxReturns := drop ?c (InternalTxReturns t)\<rparr>" by simp
  with a show ?thesis by simp
qed

section \<open>Further return events at the end of the queue\<close>

lemma addRets_simps [simp]:
  "heap (addRets x s) = heap s" "nodes (addRets x s) = nodes s"
  "InternalTxReturns (tx (addRets x s)) = InternalTxReturns (tx s) @ x"
  by (simp_all add: addRets_def)

lemma popLoop_more:
  "popLoop i n s l = Inr (s', l') \<Longrightarrow> popLoop i n (addRets x s) l = Inr (addRets x s', l')"
proof (induction i n s l rule: popLoop.induct)
  case (1 i n s lastNode)
  show ?case
  proof (cases "sint i \<le> sint n")
    case False
    with 1(2) show ?thesis by (simp add: popLoop.simps)
  next
    case True
    with 1(2) obtain r rest where rets: "InternalTxReturns (tx s) = r # rest"
      by (cases "InternalTxReturns (tx s)") (auto simp: popLoop.simps)
    from 1(2) True rets have ne: "nodes s \<noteq> []" "butlast (nodes s) \<noteq> []"
      by (auto simp: popLoop.simps split: if_splits)
    let ?s1 = "s\<lparr>tx := (tx s)\<lparr>InternalTxReturns := rest\<rparr>,
                  heap := (heap s)[lastNode := resolve r (heap s ! lastNode)],
                  nodes := butlast (nodes s)\<rparr>"
    from 1(2) True rets ne have run: "popLoop (i + 1) n ?s1 (last (butlast (nodes s))) = Inr (s', l')"
      by (subst (asm) popLoop.simps) simp
    have ih: "popLoop (i + 1) n (addRets x ?s1) (last (butlast (nodes s))) = Inr (addRets x s', l')"
      using 1(1) [OF True rets _ _ run] ne by simp
    have eq: "addRets x ?s1 =
        (addRets x s)\<lparr>tx := (tx (addRets x s))\<lparr>InternalTxReturns := rest @ x\<rparr>,
                  heap := (heap (addRets x s))[lastNode := resolve r (heap (addRets x s) ! lastNode)],
                  nodes := butlast (nodes (addRets x s))\<rparr>"
      by (simp add: addRets_def)
    show ?thesis
      using True rets ne ih unfolding eq
      by (subst popLoop.simps) simp
  qed
qed

lemma callStep_more:
  assumes "callStep s c = Inr s'"
  shows "callStep (addRets x s) c = Inr (addRets x s')"
proof (cases "nodes s = [] \<or> Depth c = depth (heap s ! last (nodes s)) + 1")
  case True
  with assms show ?thesis by (auto simp: callStep_def Let_def addRets_def)
next
  case False
  let ?top = "depth (heap s ! last (nodes s))"
  from False assms have le: "sint (Depth c) \<le> sint ?top"
    by (auto simp: callStep_def Let_def split: if_splits)
  from False assms le obtain s1 l1 where
    pl: "popLoop 0 (?top - Depth c) (s\<lparr>heap := heap s @ [newNode c]\<rparr>) (last (nodes s)) = Inr (s1, l1)"
    and s': "s' = s1\<lparr>heap := appendCall l1 (length (heap s)) (heap s1),
                     nodes := nodes s1 @ [length (heap s)]\<rparr>"
    by (auto simp: callStep_def Let_def split: sum.splits)
  have eq: "(addRets x s)\<lparr>heap := heap s @ [newNode c]\<rparr> = addRets x (s\<lparr>heap := heap s @ [newNode c]\<rparr>)"
    by (simp add: addRets_def)
  from popLoop_more [OF pl, of x] False le s' show ?thesis
    by (simp add: callStep_def Let_def eq) (simp add: addRets_def)
qed

lemma callLoop_more:
  "callLoop s cs = Inr s' \<Longrightarrow> callLoop (addRets x s) cs = Inr (addRets x s')"
proof (induction cs arbitrary: s)
  case Nil
  then show ?case by simp
next
  case (Cons c cs)
  from Cons.prems obtain s1 where st: "callStep s c = Inr s1" and lp: "callLoop s1 cs = Inr s'"
    by (auto split: sum.splits)
  from Cons.IH [OF lp] callStep_more [OF st, of x] show ?case by simp
qed

lemma drainLoop_more:
  "drainLoop s = Inr s' \<Longrightarrow> drainLoop (addRets x s) = Inr (addRets x s')"
proof (induction s rule: drainLoop.induct)
  case (1 s)
  show ?case
  proof (cases "nodes s = []")
    case True
    with 1(2) show ?thesis by (simp add: drainLoop.simps)
  next
    case False
    with 1(2) obtain r rest where rets: "InternalTxReturns (tx s) = r # rest"
      by (cases "InternalTxReturns (tx s)") (auto simp: drainLoop.simps)
    let ?s1 = "s\<lparr>nodes := butlast (nodes s),
                  tx := (tx s)\<lparr>InternalTxReturns := rest\<rparr>,
                  heap := (heap s)[last (nodes s) := resolve r (heap s ! last (nodes s))]\<rparr>"
    from 1(2) False rets have run: "drainLoop ?s1 = Inr s'"
      by (subst (asm) drainLoop.simps) simp
    have eq: "addRets x ?s1 =
        (addRets x s)\<lparr>nodes := butlast (nodes (addRets x s)),
                  tx := (tx (addRets x s))\<lparr>InternalTxReturns := rest @ x\<rparr>,
                  heap := (heap (addRets x s))[last (nodes (addRets x s)) :=
                     resolve r (heap (addRets x s) ! last (nodes (addRets x s)))]\<rparr>"
      by (simp add: addRets_def)
    from 1(1) [OF False rets run] have "drainLoop (addRets x ?s1) = Inr (addRets x s')" .
    then show ?thesis
      using False rets unfolding eq by (subst drainLoop.simps) simp
  qed
qed

lemma build_more:
  assumes "buildCallStack t = Inr (r, h, t')"
  shows "buildCallStack (t\<lparr>InternalTxReturns := InternalTxReturns t @ x\<rparr>) =
           Inr (r, h, t'\<lparr>InternalTxReturns := InternalTxReturns t' @ x\<rparr>)"
proof -
  from assms obtain s where lp: "callLoop (init t) (InternalTxCalls t) = Inr s"
    by (auto simp: buildCallStack_def split: sum.splits)
  with assms obtain n0 ns where ns: "nodes s = n0 # ns"
    by (auto simp: buildCallStack_def split: sum.splits list.splits)
  with assms lp obtain s' where dr: "drainLoop s = Inr s'" and res: "r = n0" "h = heap s'" "t' = tx s'"
    by (auto simp: buildCallStack_def split: sum.splits)
  have i: "init (t\<lparr>InternalTxReturns := InternalTxReturns t @ x\<rparr>) = addRets x (init t)"
    by (simp add: init_def addRets_def)
  show ?thesis
    using callLoop_more [OF lp, of x] drainLoop_more [OF dr, of x] ns res
    by (simp add: buildCallStack_def i) (simp add: addRets_def)
qed

section \<open>The tree laid out in the store\<close>

lemma repr_frame:
  "repr cl t \<Longrightarrow> (\<forall>a\<in>set (preorder t). a < length cl' \<and> cl' ! a = cl ! a) \<Longrightarrow> repr cl' t"
proof (induction t)
  case (Tree a ts)
  have "\<forall>t\<in>set ts. repr cl' t"
  proof
    fix t assume t: "t \<in> set ts"
    with Tree.prems have "repr cl t" by simp
    moreover have "\<forall>b\<in>set (preorder t). b < length cl' \<and> cl' ! b = cl ! b"
      using Tree.prems(2) t by auto
    ultimately show "repr cl' t" using Tree.IH t by blast
  qed
  with Tree.prems show ?case by simp
qed

lemma frames_frame:
  "frames_ok cl up fs \<Longrightarrow> (\<forall>a\<in>set (pre_frames fs). a < length cl' \<and> cl' ! a = cl ! a)
   \<Longrightarrow> frames_ok cl' up fs"
proof (induction fs arbitrary: up)
  case Nil
  then show ?case by simp
next
  case (Cons f fs)
  obtain a cs where f: "f = (a, cs)" by (cases f)
  have 1: "frames_ok cl' [a] fs"
    using Cons.IH [of "[a]"] Cons.prems by (simp add: f)
  have 2: "\<forall>t\<in>set cs. repr cl' t"
  proof
    fix t assume t: "t \<in> set cs"
    have "\<forall>b\<in>set (preorder t). b < length cl' \<and> cl' ! b = cl ! b"
      using Cons.prems(2) t by (auto simp: f)
    with Cons.prems(1) t show "repr cl' t" by (auto simp: f intro: repr_frame)
  qed
  show ?case using 1 2 Cons.prems by (simp add: f)
qed

lemma tree_inv_butlast:
  assumes "tree_inv cl ns" "2 \<le> length ns"
  shows "tree_inv cl (butlast ns)"
proof -
  from assms(1) obtain fs where fs: "ns = rev (map fst fs)" "frames_ok cl [] fs"
    "pre_frames fs = [0..<length cl]" by (auto simp: tree_inv_def)
  from assms(2) fs(1) obtain a cs b ds rest where sp: "fs = (a, cs) # (b, ds) # rest"
    by (cases fs rule: list.exhaust; cases "tl fs"; force)
  let ?fs' = "(b, ds @ [Tree a cs]) # rest"
  have "butlast ns = rev (map fst ?fs')" by (simp add: fs(1) sp butlast_append)
  moreover have "frames_ok cl [] ?fs'" using fs(2) by (simp add: sp)
  moreover have "pre_frames ?fs' = [0..<length cl]" using fs(3) by (simp add: sp)
  ultimately show ?thesis unfolding tree_inv_def by blast
qed

lemma tree_inv_take:
  "tree_inv cl ns \<Longrightarrow> m < length ns \<Longrightarrow> tree_inv cl (take (length ns - m) ns)"
proof (induction m)
  case 0
  then show ?case by simp
next
  case (Suc m)
  let ?k = "length ns - m"
  have "tree_inv cl (take ?k ns)" using Suc by simp
  moreover have "2 \<le> length (take ?k ns)" using Suc.prems by simp
  ultimately have "tree_inv cl (butlast (take ?k ns))" by (rule tree_inv_butlast)
  moreover have "butlast (take ?k ns) = take (length ns - Suc m) ns"
    by (simp add: butlast_take)
  ultimately show ?case by simp
qed

lemma tree_inv_push:
  assumes inv: "tree_inv cl ns" and ne: "ns \<noteq> []"
  shows "tree_inv ((cl @ [[]])[last ns := cl ! last ns @ [length cl]]) (ns @ [length cl])"
proof -
  let ?L = "length cl"
  from inv obtain fs where fs: "ns = rev (map fst fs)" "frames_ok cl [] fs"
    "pre_frames fs = [0..<?L]" by (auto simp: tree_inv_def)
  from ne fs(1) obtain a cs rest where sp: "fs = (a, cs) # rest" by (cases fs) auto
  have la: "last ns = a" by (simp add: fs(1) sp)
  let ?cl' = "(cl @ [[]])[a := cl ! a @ [?L]]"
  have dist: "distinct (pre_frames fs)" using fs(3) by simp
  have bound: "\<forall>b\<in>set (pre_frames fs). b < ?L" using fs(3) by simp
  have a: "a < ?L" using fs(2) by (simp add: sp)
  have same: "b < length ?cl' \<and> ?cl' ! b = cl ! b" if "b \<in> set (pre_frames fs)" "b \<noteq> a" for b
    using bound that by (auto simp: nth_append)
  have rest_ok: "frames_ok ?cl' [a] rest"
  proof (rule frames_frame)
    show "frames_ok cl [a] rest" using fs(2) by (simp add: sp)
    show "\<forall>b\<in>set (pre_frames rest). b < length ?cl' \<and> ?cl' ! b = cl ! b"
    proof
      fix b assume b: "b \<in> set (pre_frames rest)"
      then have "b \<in> set (pre_frames fs)" "b \<noteq> a" using dist by (auto simp: sp)
      then show "b < length ?cl' \<and> ?cl' ! b = cl ! b" by (rule same)
    qed
  qed
  have cs_ok: "\<forall>t\<in>set cs. repr ?cl' t"
  proof
    fix t assume t: "t \<in> set cs"
    have "\<forall>b\<in>set (preorder t). b < length ?cl' \<and> ?cl' ! b = cl ! b"
    proof
      fix b assume b: "b \<in> set (preorder t)"
      with t have "b \<in> set (pre_frames fs)" "b \<noteq> a" using dist by (auto simp: sp)
      then show "b < length ?cl' \<and> ?cl' ! b = cl ! b" by (rule same)
    qed
    moreover have "repr cl t" using fs(2) t by (simp add: sp)
    ultimately show "repr ?cl' t" by (intro repr_frame [of cl t ?cl'])
  qed
  let ?fs' = "(?L, []) # (a, cs) # rest"
  have "frames_ok ?cl' [] ?fs'"
    using rest_ok cs_ok a fs(2) by (simp add: sp nth_append)
  moreover have "pre_frames ?fs' = [0..<length ?cl']" using fs(3) by (simp add: sp)
  moreover have "ns @ [?L] = rev (map fst ?fs')" by (simp add: fs(1) sp)
  ultimately show ?thesis unfolding tree_inv_def la by blast
qed

lemma tree_inv_final:
  assumes inv: "tree_inv cl ns" and ne: "ns \<noteq> []"
  shows "\<exists>t. repr cl t \<and> root t = hd ns \<and> preorder t = [0..<length cl]"
proof -
  have "tree_inv cl (take (length ns - (length ns - 1)) ns)"
    by (rule tree_inv_take [OF inv]) (use ne in simp)
  moreover have "take (length ns - (length ns - 1)) ns = [hd ns]"
    using ne by (cases ns) simp_all
  ultimately have "tree_inv cl [hd ns]" by simp
  then obtain fs where fs: "[hd ns] = rev (map fst fs)" "frames_ok cl [] fs"
    "pre_frames fs = [0..<length cl]" unfolding tree_inv_def by blast
  from fs(1) have "length (rev (map fst fs)) = length [hd ns]" by simp
  then have "length fs = Suc 0" by simp
  then obtain a cs where sp: "fs = [(a, cs)]" by (cases fs) auto
  have "repr cl (Tree a cs)" using fs(2) by (simp add: sp)
  moreover have "root (Tree a cs) = hd ns" using fs(1) by (simp add: sp)
  moreover have "preorder (Tree a cs) = [0..<length cl]" using fs(3) by (simp add: sp)
  ultimately show ?thesis by blast
qed

lemma those_map_Some:
  "(\<forall>x\<in>set xs. f (g x) = Some x) \<Longrightarrow> those (map f (map g xs)) = Some xs"
  by (induction xs) simp_all

lemma preorder_nonempty: "preorder t \<noteq> []"
  by (cases t) simp

lemma preorder_child_length:
  "t \<in> set ts \<Longrightarrow> length (preorder t) \<le> length (concat (map preorder ts))"
  by (induction ts) auto

lemma toTree_repr:
  "repr (map Calls h) t \<Longrightarrow> length (preorder t) \<le> k \<Longrightarrow> toTree k h (root t) = Some t"
proof (induction k arbitrary: t)
  case 0
  then show ?case using preorder_nonempty [of t] by simp
next
  case (Suc k)
  obtain a ts where t: "t = Tree a ts" by (cases t)
  from Suc.prems(1) have a: "a < length h" and cs': "map Calls h ! a = map root ts"
    and sub: "\<forall>u\<in>set ts. repr (map Calls h) u" by (simp_all add: t)
  from a cs' have cs: "Calls (h ! a) = map root ts" by simp
  have "\<forall>u\<in>set ts. toTree k h (root u) = Some u"
  proof
    fix u assume u: "u \<in> set ts"
    from preorder_child_length [OF u] Suc.prems(2) have "length (preorder u) \<le> k"
      by (simp add: t)
    with sub u show "toTree k h (root u) = Some u" by (intro Suc.IH) auto
  qed
  then have "those (map (toTree k h) (map root ts)) = Some ts" by (rule those_map_Some)
  then show ?case using a cs by (simp add: t)
qed

lemma tree_inv_stepped:
  assumes inv: "tree_inv (map Calls (heap s)) (nodes s)"
    and valid: "\<forall>a\<in>set (nodes s). a < length (heap s)"
    and st: "stepped m s c s'"
  shows "tree_inv (map Calls (heap s')) (nodes s')"
proof -
  let ?ns = "take (length (nodes s) - m) (nodes s)"
  let ?cl = "map Calls (heap s)"
  from st have m: "m < length (nodes s)" by (simp add: stepped_def)
  then have ne: "?ns \<noteq> []" by auto
  have lst: "last ?ns = nodes s ! (length (nodes s) - Suc m)"
    using m ne by (simp add: last_conv_nth)
  have "nodes s ! (length (nodes s) - Suc m) \<in> set (nodes s)"
    using m by (intro nth_mem) simp
  with valid have pv: "nodes s ! (length (nodes s) - Suc m) < length (heap s)" by blast
  from tree_inv_push [OF tree_inv_take [OF inv m] ne]
  have "tree_inv ((?cl @ [[]])[last ?ns := ?cl ! last ?ns @ [length ?cl]]) (?ns @ [length ?cl])" .
  then show ?thesis using st pv unfolding stepped_def lst by simp
qed

lemma tree_inv_step:
  assumes inv: "tree_inv (map Calls (heap s)) (nodes s)"
    and r: "reach_inv t done s"
    and run: "callStep s c = Inr s'"
  shows "tree_inv (map Calls (heap s')) (nodes s')"
proof (cases "nodes s = []")
  case True
  with r have "heap s = []" by (auto simp: reach_inv_def)
  moreover have "tree_inv [[]] [0]"
    unfolding tree_inv_def by (rule exI [of _ "[(0, [])]"]) simp
  ultimately show ?thesis using run True by (auto simp: callStep_first)
next
  case False
  from r have valid: "\<forall>a\<in>set (nodes s). a < length (heap s)" by (simp add: reach_inv_def)
  from callStep_Inr [OF run False valid] obtain m where "stepped m s c s'" by blast
  from tree_inv_stepped [OF inv valid this] show ?thesis .
qed

lemma tree_inv_loop:
  "tree_inv (map Calls (heap s)) (nodes s) \<Longrightarrow> reach_inv t done s \<Longrightarrow> callLoop s cs = Inr s'
   \<Longrightarrow> tree_inv (map Calls (heap s')) (nodes s')"
proof (induction cs arbitrary: s "done")
  case Nil
  then show ?case by simp
next
  case (Cons c cs)
  from Cons.prems(3) obtain s1 where st: "callStep s c = Inr s1" and lp: "callLoop s1 cs = Inr s'"
    by (auto split: sum.splits)
  from Cons.IH [OF tree_inv_step [OF Cons.prems(1,2) st] reach_inv_step [OF Cons.prems(2) st] lp]
  show ?case .
qed

lemma build_tree:
  assumes "buildCallStack t = Inr (r, h, t')"
  shows "\<exists>tr. toTree (length h) h r = Some tr \<and> preorder tr = [0..<length h] \<and>
           map event_of h = InternalTxCalls t"
proof -
  from assms obtain s where lp: "callLoop (init t) (InternalTxCalls t) = Inr s"
    and ne: "nodes s \<noteq> []" and r: "r = hd (nodes s)" and sl: "same_links (heap s) h"
    by (rule build_Inr)
  have i0: "tree_inv (map Calls (heap (init t))) (nodes (init t))"
    unfolding tree_inv_def by (rule exI [of _ "[]"]) (simp add: init_def)
  from tree_inv_loop [OF i0 reach_inv_init lp]
  have "tree_inv (map Calls h) (nodes s)" using sl by (simp add: same_links_def)
  from tree_inv_final [OF this ne] obtain tr where tr: "repr (map Calls h) tr"
    "root tr = hd (nodes s)" "preorder tr = [0..<length h]" by auto
  from toTree_repr [OF tr(1), of "length h"] tr have "toTree (length h) h r = Some tr"
    by (simp add: r)
  moreover from reach_inv_loop [OF reach_inv_init lp] sl
  have "map event_of h = InternalTxCalls t" by (simp add: reach_inv_def same_links_def)
  ultimately show ?thesis using tr(3) by blast
qed

section \<open>Depths along the stack and along the links\<close>

lemma sint32_max_succ: "sint (x :: 32 word) = 2147483647 \<Longrightarrow> sint (x + 1) < 0"
  by (simp add: sint_word_add)

lemma sint32_succ_nonneg:
  "0 \<le> sint (x + 1 :: 32 word) \<Longrightarrow> sint (x + 1) = sint x + 1"
  using sint32_max_succ [of x] sint32_succ [of x] sint32_bounds [of x] by fastforce

lemma depth_event_of: "depth n = Depth (event_of n)"
  by (simp add: event_of_def)




lemma stepped_nth:
  assumes st: "stepped m s c s'" and valid: "\<forall>a\<in>set (nodes s). a < length (heap s)"
  defines "L \<equiv> length (heap s)"
  defines "p \<equiv> nodes s ! (length (nodes s) - Suc m)"
  shows "length (heap s') = Suc L"
    and "p < L"
    and "\<And>a. a < L \<Longrightarrow> depth (heap s' ! a) = depth (heap s ! a)"
    and "depth (heap s' ! L) = Depth c"
    and "\<And>a. a < L \<Longrightarrow> a \<noteq> p \<Longrightarrow> Calls (heap s' ! a) = Calls (heap s ! a)"
    and "Calls (heap s' ! p) = Calls (heap s ! p) @ [L]"
    and "Calls (heap s' ! L) = []"
proof -
  from st have m: "m < length (nodes s)"
    and cl: "map Calls (heap s') = (map Calls (heap s) @ [[]])[p := Calls (heap s ! p) @ [L]]"
    and ev: "map event_of (heap s') = map event_of (heap s) @ [c]"
    by (simp_all add: stepped_def L_def p_def)
  from ev show len: "length (heap s') = Suc L"
    unfolding L_def by (metis length_map length_append_singleton)
  have "p \<in> set (nodes s)" unfolding p_def using m by (intro nth_mem) simp
  with valid show p: "p < L" by (simp add: L_def)
  have evn: "event_of (heap s' ! a) = (map event_of (heap s) @ [c]) ! a" if "a < Suc L" for a
    using that len ev by (metis nth_map)
  show "depth (heap s' ! a) = depth (heap s ! a)" if "a < L" for a
    using evn [of a] that by (simp add: depth_event_of nth_append L_def)
  show "depth (heap s' ! L) = Depth c"
    using evn [of L] by (simp add: depth_event_of nth_append L_def)
  have cln: "Calls (heap s' ! a) = (map Calls (heap s) @ [[]])[p := Calls (heap s ! p) @ [L]] ! a"
    if "a < Suc L" for a
    using that len cl by (metis nth_map)
  show "Calls (heap s' ! a) = Calls (heap s ! a)" if "a < L" "a \<noteq> p" for a
    using cln [of a] that by (simp add: nth_append L_def)
  show "Calls (heap s' ! p) = Calls (heap s ! p) @ [L]"
    using cln [of p] p by (simp add: L_def)
  show "Calls (heap s' ! L) = []"
    using cln [of L] p by (simp add: nth_append L_def)
qed

lemma depth_inv_stepped:
  assumes inv: "depth_inv s"
    and valid: "\<forall>a\<in>set (nodes s). a < length (heap s)"
    and st: "stepped m s c s'"
    and top: "sint (Depth c) = sint (depth (heap s ! last (nodes s))) - int m + 1"
    and nonneg: "0 \<le> sint (Depth c)"
  shows "depth_inv s'"
proof -
  let ?L = "length (heap s)" and ?len = "length (nodes s)"
  let ?p = "nodes s ! (?len - Suc m)"
  let ?base = "sint (depth (heap s ! hd (nodes s)))"
  note n = stepped_nth [OF st valid]
  from st have m: "m < ?len"
    and ns: "nodes s' = take (?len - m) (nodes s) @ [?L]"
    by (simp_all add: stepped_def)
  from inv have nn: "\<forall>a<?L. 0 \<le> sint (depth (heap s ! a))"
    and chain: "\<forall>i<?len. sint (depth (heap s ! (nodes s ! i))) = ?base + int i"
    and edges: "edges_ok (heap s)"
    by (simp_all add: depth_inv_def)
  have nv: "nodes s ! i < ?L" if "i < ?len" for i using valid that by simp
  have lst: "last (nodes s) = nodes s ! (?len - 1)"
    using m by (intro last_conv_nth) auto
  have dtop: "sint (depth (heap s ! last (nodes s))) = ?base + int (?len - 1)"
    unfolding lst using chain m by simp
  have dp: "sint (depth (heap s ! ?p)) = ?base + int (?len - Suc m)"
    using chain m by simp
  have dnew: "sint (Depth c) = ?base + int (?len - m)"
    using top dtop m by simp
  have hd': "hd (nodes s') = hd (nodes s)"
    using m by (simp add: ns hd_append) (cases "nodes s"; simp)
  have hdv: "hd (nodes s) < ?L" using valid m by (cases "nodes s") auto
  have 1: "\<forall>a<length (heap s'). 0 \<le> sint (depth (heap s' ! a))"
    using nn n(1,3,4) nonneg by (auto simp: less_Suc_eq)
  have 2: "\<forall>i<length (nodes s').
        sint (depth (heap s' ! (nodes s' ! i))) = sint (depth (heap s' ! hd (nodes s'))) + int i"
  proof (intro allI impI)
    fix i assume i: "i < length (nodes s')"
    show "sint (depth (heap s' ! (nodes s' ! i))) = sint (depth (heap s' ! hd (nodes s'))) + int i"
    proof (cases "i < ?len - m")
      case True
      then have "nodes s' ! i = nodes s ! i" by (simp add: ns nth_append)
      moreover have "i < ?len" using True by simp
      ultimately show ?thesis using chain nv [of i] n(3) hd' hdv by simp
    next
      case False
      with i m have ieq: "i = ?len - m" by (simp add: ns)
      then have "nodes s' ! i = ?L" using m by (simp add: ns nth_append)
      then show ?thesis using dnew n(4) n(3) [OF hdv] hd' ieq by simp
    qed
  qed
  have 3: "edges_ok (heap s')"
    unfolding edges_ok_def
  proof (intro allI impI)
    fix q assume q: "q < length (heap s')"
    consider "q = ?L" | "q = ?p" | "q < ?L" "q \<noteq> ?p" using q n(1) by fastforce
    then show "sorted_wrt (<) (Calls (heap s' ! q)) \<and>
        (\<forall>c\<in>set (Calls (heap s' ! q)).
           c < length (heap s') \<and> sint (depth (heap s' ! c)) = sint (depth (heap s' ! q)) + 1)"
    proof cases
      case 1
      then show ?thesis using n(7) by simp
    next
      case 2
      from edges n(2) have e: "sorted_wrt (<) (Calls (heap s ! ?p))"
        "\<forall>c\<in>set (Calls (heap s ! ?p)).
           c < ?L \<and> sint (depth (heap s ! c)) = sint (depth (heap s ! ?p)) + 1"
        by (simp_all add: edges_ok_def)
      have "sint (depth (heap s' ! ?L)) = sint (depth (heap s' ! ?p)) + 1"
        using n(4) n(3) [OF n(2)] dnew dp m by (simp add: Suc_diff_Suc)
      then show ?thesis
        unfolding 2 n(6) n(1) using e n(2,3)
        by (auto simp: sorted_wrt_append less_Suc_eq)
    next
      case 3
      from edges 3(1) have e: "sorted_wrt (<) (Calls (heap s ! q))"
        "\<forall>c\<in>set (Calls (heap s ! q)).
           c < ?L \<and> sint (depth (heap s ! c)) = sint (depth (heap s ! q)) + 1"
        by (simp_all add: edges_ok_def)
      show ?thesis
        unfolding n(5) [OF 3] n(1) using e n(3) 3(1)
        by (auto simp: less_Suc_eq)
    qed
  qed
  show ?thesis unfolding depth_inv_def using 1 2 3 by blast
qed

lemma depth_inv_step:
  assumes inv: "depth_inv s" and r: "reach_inv t done s"
    and run: "callStep s c = Inr s'"
    and nonneg: "0 \<le> sint (Depth c)"
  shows "depth_inv s'"
proof (cases "nodes s = []")
  case True
  with r have "heap s = []" by (auto simp: reach_inv_def)
  with run True nonneg show ?thesis
    by (auto simp: callStep_first depth_inv_def edges_ok_def newNode_def)
next
  case False
  let ?top = "depth (heap s ! last (nodes s))"
  from r have valid: "\<forall>a\<in>set (nodes s). a < length (heap s)" by (simp add: reach_inv_def)
  from False valid have "last (nodes s) < length (heap s)" by simp
  with inv have tnn: "0 \<le> sint ?top" by (simp add: depth_inv_def)
  from callStep_Inr [OF run False valid] obtain m where st: "stepped m s c s'"
    and m: "Depth c = ?top + 1 \<and> m = 0 \<or>
            Depth c \<noteq> ?top + 1 \<and> sint (Depth c) \<le> sint ?top \<and>
            sint (?top - Depth c) < 2147483647 \<and> m = nat (sint (?top - Depth c) + 1)"
    by blast
  have "sint (Depth c) = sint ?top - int m + 1"
  proof (cases "Depth c = ?top + 1")
    case True
    with m have "m = 0" by simp
    moreover have "sint (?top + 1) = sint ?top + 1"
      using nonneg True by (intro sint32_succ_nonneg) simp
    ultimately show ?thesis using True by simp
  next
    case False
    with m have le: "sint (Depth c) \<le> sint ?top" and mm: "m = nat (sint (?top - Depth c) + 1)"
      by simp_all
    have "sint (?top - Depth c) = sint ?top - sint (Depth c)"
      using le nonneg tnn sint32_bounds [of ?top] by (intro sint32_diff) simp_all
    then show ?thesis using mm le by simp
  qed
  from depth_inv_stepped [OF inv valid st this nonneg] show ?thesis .
qed

lemma depth_inv_loop:
  "depth_inv s \<Longrightarrow> reach_inv t done s \<Longrightarrow> callLoop s cs = Inr s' \<Longrightarrow>
   \<forall>c\<in>set cs. 0 \<le> sint (Depth c) \<Longrightarrow> depth_inv s'"
proof (induction cs arbitrary: s "done")
  case Nil
  then show ?case by simp
next
  case (Cons c cs)
  from Cons.prems(3) obtain s1 where st: "callStep s c = Inr s1" and lp: "callLoop s1 cs = Inr s'"
    by (auto split: sum.splits)
  have "depth_inv s1" using Cons.prems by (intro depth_inv_step [OF _ _ st]) auto
  from Cons.IH [OF this reach_inv_step [OF Cons.prems(2) st] lp] Cons.prems(4)
  show ?case by simp
qed

lemma depth_inv_init: "depth_inv (init t)"
  by (simp add: depth_inv_def init_def edges_ok_def)


section \<open>The open calls that a call event ends\<close>

lemma rev_snoc_butlast: "ns \<noteq> [] \<Longrightarrow> rev ns = last ns # rev (butlast ns)"
  by (induction ns rule: rev_induct) simp_all

lemma popN_exact:
  assumes "m < length (nodes s)" "m \<le> length (InternalTxReturns (tx s))"
    and "distinct (nodes s)" "\<forall>a\<in>set (nodes s). a < length (heap s)"
  shows "\<exists>s'. popN m s (last (nodes s)) = Inr (s', last (nodes s')) \<and>
           nodes s' = take (length (nodes s) - m) (nodes s) \<and>
           tx s' = (tx s)\<lparr>InternalTxReturns := drop m (InternalTxReturns (tx s))\<rparr> \<and>
           length (heap s') = length (heap s) \<and>
           (\<forall>j<m. heap s' ! (rev (nodes s) ! j) =
                     resolve (InternalTxReturns (tx s) ! j) (heap s ! (rev (nodes s) ! j))) \<and>
           (\<forall>a. a \<notin> set (take m (rev (nodes s))) \<longrightarrow> heap s' ! a = heap s ! a)"
  using assms
proof (induction m arbitrary: s)
  case 0
  then show ?case by simp
next
  case (Suc m)
  let ?ns = "nodes s" and ?l = "last (nodes s)"
  from Suc.prems(2) obtain r rest where rets: "InternalTxReturns (tx s) = r # rest"
    by (cases "InternalTxReturns (tx s)") auto
  from Suc.prems(1) have ne: "?ns \<noteq> []" "butlast ?ns \<noteq> []"
    by (auto simp: butlast_conv_take)
  let ?s1 = "s\<lparr>tx := (tx s)\<lparr>InternalTxReturns := rest\<rparr>,
                heap := (heap s)[?l := resolve r (heap s ! ?l)],
                nodes := butlast ?ns\<rparr>"
  have rv: "rev ?ns = ?l # rev (butlast ?ns)" using ne by (intro rev_snoc_butlast)
  have lv: "?l < length (heap s)" using Suc.prems(4) ne by simp
  have "distinct (butlast ?ns @ [?l])" using Suc.prems(3) ne by simp
  then have lnot: "?l \<notin> set (butlast ?ns)" by simp
  have p1: "m < length (nodes ?s1)" using Suc.prems(1) by simp
  have p2: "m \<le> length (InternalTxReturns (tx ?s1))" using Suc.prems(2) rets by simp
  have p3: "distinct (nodes ?s1)" using Suc.prems(3) by (simp add: distinct_butlast)
  have p4: "\<forall>a\<in>set (nodes ?s1). a < length (heap ?s1)"
    using Suc.prems(4) by (auto dest: in_set_butlastD)
  from Suc.IH [OF p1 p2 p3 p4] obtain s' where
    run: "popN m ?s1 (last (butlast ?ns)) = Inr (s', last (nodes s'))"
    and n': "nodes s' = take (length (butlast ?ns) - m) (butlast ?ns)"
    and t': "tx s' = (tx s)\<lparr>InternalTxReturns := drop m rest\<rparr>"
    and l': "length (heap s') = length (heap s)"
    and res: "\<forall>j<m. heap s' ! (rev (butlast ?ns) ! j) =
                 resolve (rest ! j) ((heap s)[?l := resolve r (heap s ! ?l)] ! (rev (butlast ?ns) ! j))"
    and unt: "\<forall>a. a \<notin> set (take m (rev (butlast ?ns))) \<longrightarrow>
                 heap s' ! a = (heap s)[?l := resolve r (heap s ! ?l)] ! a"
    by auto
  have a: "popN (Suc m) s ?l = Inr (s', last (nodes s'))"
    using run rets ne by simp
  have b: "nodes s' = take (length ?ns - Suc m) ?ns"
    using n' by (simp add: butlast_conv_take)
  have c: "tx s' = (tx s)\<lparr>InternalTxReturns := drop (Suc m) (InternalTxReturns (tx s))\<rparr>"
    using t' rets by simp
  have d: "\<forall>j<Suc m. heap s' ! (rev ?ns ! j) =
                     resolve (InternalTxReturns (tx s) ! j) (heap s ! (rev ?ns ! j))"
  proof (intro allI impI)
    fix j assume j: "j < Suc m"
    show "heap s' ! (rev ?ns ! j) = resolve (InternalTxReturns (tx s) ! j) (heap s ! (rev ?ns ! j))"
    proof (cases j)
      case 0
      have "?l \<notin> set (take m (rev (butlast ?ns)))"
        using lnot by (auto dest: in_set_takeD)
      with unt have "heap s' ! ?l = (heap s)[?l := resolve r (heap s ! ?l)] ! ?l" by blast
      then show ?thesis using lv 0 rets by (simp add: rv)
    next
      case (Suc j')
      with j have j': "j' < m" by simp
      with Suc.prems(1) have jl: "j' < length (rev (butlast ?ns))" by simp
      then have "rev (butlast ?ns) ! j' \<in> set (rev (butlast ?ns))" by (rule nth_mem)
      with lnot have "rev (butlast ?ns) ! j' \<noteq> ?l" by auto
      with res j' show ?thesis by (simp add: rv Suc rets)
    qed
  qed
  have e: "\<forall>a. a \<notin> set (take (Suc m) (rev ?ns)) \<longrightarrow> heap s' ! a = heap s ! a"
    using unt by (simp add: rv)
  show ?case using a b c d e l' by blast
qed

lemma callStep_pop:
  assumes r: "reach_inv t done s" and dinv: "depth_inv s" and ne: "nodes s \<noteq> []"
    and le: "sint (Depth c) \<le> sint (depth (heap s ! last (nodes s)))"
    and k: "k = nat (sint (depth (heap s ! last (nodes s))) - sint (Depth c) + 1)"
    and k1: "k < length (nodes s)"
    and k2: "k \<le> length (InternalTxReturns (tx s))"
  shows "\<exists>s'. callStep s c = Inr s' \<and> stepped k s c s' \<and>
           (\<forall>j<k. heap s' ! (rev (nodes s) ! j) =
                     resolve (InternalTxReturns (tx s) ! j) (heap s ! (rev (nodes s) ! j))) \<and>
           heap s' ! length (heap s) = newNode c \<and>
           sint (depth (heap s' ! (nodes s ! (length (nodes s) - Suc k)))) = sint (Depth c) - 1"
proof -
  let ?ns = "nodes s" and ?L = "length (heap s)" and ?len = "length (nodes s)"
  let ?top = "depth (heap s ! last ?ns)"
  let ?base = "sint (depth (heap s ! hd ?ns))"
  let ?p = "?ns ! (?len - Suc k)"
  let ?s0 = "s\<lparr>heap := heap s @ [newNode c]\<rparr>"
  from r have valid: "\<forall>a\<in>set ?ns. a < ?L" and srt: "sorted_wrt (<) ?ns"
    by (simp_all add: reach_inv_def)
  from srt have dist: "distinct ?ns" by (simp add: strict_sorted_iff [symmetric] sorted_wrt_iff_nth_less distinct_conv_nth) (metis nat_neq_iff)
  from dinv have nn: "\<forall>a<?L. 0 \<le> sint (depth (heap s ! a))"
    and chain: "\<forall>i<?len. sint (depth (heap s ! (?ns ! i))) = ?base + int i"
    by (simp_all add: depth_inv_def)
  have lst: "last ?ns = ?ns ! (?len - 1)" using ne by (rule last_conv_nth)
  have dtop: "sint ?top = ?base + int (?len - 1)" unfolding lst using chain ne by simp
  have hdv: "hd ?ns < ?L" using valid ne by (cases ?ns) auto
  with nn have base0: "0 \<le> ?base" by simp
  have kk: "int k = sint ?top - sint (Depth c) + 1" using k le by simp
  with k1 dtop base0 have dpos: "1 \<le> sint (Depth c)" by simp
  have pv: "?p < ?L" using valid k1 by simp
  have dp: "sint (depth (heap s ! ?p)) = sint (Depth c) - 1"
    using chain k1 kk dtop by simp
  have diff: "sint (?top - Depth c) = sint ?top - sint (Depth c)"
    using le dpos sint32_bounds [of ?top] by (intro sint32_diff) simp_all
  have nmax: "sint (?top - Depth c) < 2147483647"
    unfolding diff using dpos sint32_bounds [of ?top] by simp
  have neq: "Depth c \<noteq> ?top + 1"
  proof
    assume eq: "Depth c = ?top + 1"
    with dpos have "sint (?top + 1) = sint ?top + 1" by (intro sint32_succ_nonneg) simp
    with eq le show False by simp
  qed
  have pl: "popLoop 0 (?top - Depth c) ?s0 (last ?ns) = popN k ?s0 (last ?ns)"
    by (rule popLoop_popN [OF nmax]) (simp add: k diff)
  have v0: "\<forall>a\<in>set (nodes ?s0). a < length (heap ?s0)" using valid by auto
  from popN_exact [of k ?s0] k1 k2 dist v0 obtain s1 where
    run: "popN k ?s0 (last ?ns) = Inr (s1, last (nodes s1))"
    and res: "\<forall>j<k. heap s1 ! (rev ?ns ! j) =
                resolve (InternalTxReturns (tx s) ! j) ((heap s @ [newNode c]) ! (rev ?ns ! j))"
    and unt: "\<forall>a. a \<notin> set (take k (rev ?ns)) \<longrightarrow> heap s1 ! a = (heap s @ [newNode c]) ! a"
    and n1: "nodes s1 = take (?len - k) ?ns"
    and l1: "length (heap s1) = Suc ?L"
    by auto
  let ?s' = "s1\<lparr>heap := appendCall (last (nodes s1)) ?L (heap s1), nodes := nodes s1 @ [?L]\<rparr>"
  have step: "callStep s c = Inr ?s'"
    using ne neq le pl run by (simp add: callStep_def Let_def)
  have st: "stepped k s c ?s'" by (rule popN_stepped [OF run ne valid])
  have "take (?len - k) ?ns \<noteq> []" using k1 by auto
  then have "last (take (?len - k) ?ns) = take (?len - k) ?ns ! (?len - k - 1)"
    by (simp add: last_conv_nth)
  also have "\<dots> = ?p" using k1 by simp
  finally have lp: "last (nodes s1) = ?p" by (simp add: n1)
  have popped: "rev ?ns ! j \<noteq> ?p \<and> rev ?ns ! j < ?L" if "j < k" for j
  proof -
    have j: "j < ?len" using that k1 by simp
    then have rj: "rev ?ns ! j = ?ns ! (?len - Suc j)" by (simp add: rev_nth)
    have "?len - Suc j \<noteq> ?len - Suc k" using that k1 by simp
    with dist j k1 have "?ns ! (?len - Suc j) \<noteq> ?p" by (simp add: nth_eq_iff_index_eq)
    moreover have "?ns ! (?len - Suc j) < ?L" using valid j by simp
    ultimately show ?thesis by (simp add: rj)
  qed
  have r1: "\<forall>j<k. heap ?s' ! (rev ?ns ! j) =
              resolve (InternalTxReturns (tx s) ! j) (heap s ! (rev ?ns ! j))"
  proof (intro allI impI)
    fix j assume j: "j < k"
    from popped [OF j] have a: "?p \<noteq> rev ?ns ! j" and b: "rev ?ns ! j < ?L" by auto
    from a have "heap ?s' ! (rev ?ns ! j) = heap s1 ! (rev ?ns ! j)"
      by (simp add: appendCall_def lp)
    also have "\<dots> = resolve (InternalTxReturns (tx s) ! j) ((heap s @ [newNode c]) ! (rev ?ns ! j))"
      using res j by blast
    also have "(heap s @ [newNode c]) ! (rev ?ns ! j) = heap s ! (rev ?ns ! j)"
      using b by (simp add: nth_append)
    finally show "heap ?s' ! (rev ?ns ! j) =
        resolve (InternalTxReturns (tx s) ! j) (heap s ! (rev ?ns ! j))" .
  qed
  have Lnot: "?L \<notin> set (take k (rev ?ns))"
  proof
    assume "?L \<in> set (take k (rev ?ns))"
    then have "?L \<in> set (rev ?ns)" by (rule in_set_takeD)
    with valid show False by auto
  qed
  have r2: "heap ?s' ! ?L = newNode c"
    using unt Lnot pv by (simp add: appendCall_def lp)
  have pnot: "?p \<notin> set (take k (rev ?ns))"
  proof
    assume "?p \<in> set (take k (rev ?ns))"
    then obtain j where "j < k" "j < ?len" "rev ?ns ! j = ?p"
      by (auto simp: in_set_conv_nth)
    with popped show False by blast
  qed
  have "heap s1 ! ?p = heap s ! ?p" using unt pnot pv by (simp add: nth_append)
  then have r3: "sint (depth (heap ?s' ! ?p)) = sint (Depth c) - 1"
    using dp pv l1 by (simp add: appendCall_def lp)
  show ?thesis using step st r1 r2 r3 by blast
qed

section \<open>Well-formed traces are built\<close>

lemma sint32_inj: "sint (x :: 32 word) = sint y \<Longrightarrow> x = y"
  by (rule word_eq_iff_signed [THEN iffD2])

lemma callStep_wf:
  assumes r: "reach_inv t done s" and dinv: "depth_inv s" and ne: "nodes s \<noteq> []"
    and root0: "sint (depth (heap s ! hd (nodes s))) = 0"
    and d1: "1 \<le> sint (Depth c)"
    and d2: "sint (Depth c) \<le> sint (depth (heap s ! last (nodes s))) + 1"
    and cnt: "length done < length (InternalTxReturns t)"
  shows "\<exists>s'. callStep s c = Inr s'"
proof (cases "Depth c = depth (heap s ! last (nodes s)) + 1")
  case True
  with ne show ?thesis by (simp add: callStep_def Let_def)
next
  case False
  let ?top = "depth (heap s ! last (nodes s))" and ?len = "length (nodes s)"
  have le: "sint (Depth c) \<le> sint ?top"
  proof (rule ccontr)
    assume "\<not> sint (Depth c) \<le> sint ?top"
    with d2 have eq: "sint (Depth c) = sint ?top + 1" by simp
    with sint32_bounds [of "Depth c"] have "sint ?top < 2147483647" by simp
    then have "sint (?top + 1) = sint ?top + 1" by (rule sint32_succ)
    with eq have "Depth c = ?top + 1" by (intro sint32_inj) simp
    with False show False by simp
  qed
  define k where "k = nat (sint ?top - sint (Depth c) + 1)"
  from dinv have chain: "\<forall>i<?len. sint (depth (heap s ! (nodes s ! i))) =
      sint (depth (heap s ! hd (nodes s))) + int i"
    by (simp add: depth_inv_def)
  have "last (nodes s) = nodes s ! (?len - 1)" using ne by (rule last_conv_nth)
  with chain ne root0 have dtop: "sint ?top = int (?len - 1)" by simp
  have k1: "k < ?len" using dtop d1 le ne by (simp add: k_def)
  from r have "tx s = t\<lparr>InternalTxReturns := drop (length done - ?len) (InternalTxReturns t)\<rparr>"
    and "?len \<le> length done" by (simp_all add: reach_inv_def)
  with cnt have "?len < length (InternalTxReturns (tx s))" by simp
  with k1 have k2: "k \<le> length (InternalTxReturns (tx s))" by simp
  from callStep_pop [OF r dinv ne le k_def k1 k2] show ?thesis by blast
qed

lemma stepped_ends:
  assumes st: "stepped m s c s'" and valid: "\<forall>a\<in>set (nodes s). a < length (heap s)"
  shows "nodes s' \<noteq> []" "hd (nodes s') = hd (nodes s)"
    "depth (heap s' ! hd (nodes s')) = depth (heap s ! hd (nodes s))"
    "depth (heap s' ! last (nodes s')) = Depth c"
proof -
  from st have m: "m < length (nodes s)"
    and ns: "nodes s' = take (length (nodes s) - m) (nodes s) @ [length (heap s)]"
    by (simp_all add: stepped_def)
  note n = stepped_nth [OF st valid]
  show "nodes s' \<noteq> []" by (simp add: ns)
  show hd': "hd (nodes s') = hd (nodes s)"
    using m by (simp add: ns hd_append) (cases "nodes s"; simp)
  have "hd (nodes s) < length (heap s)" using valid m by (cases "nodes s") auto
  then show "depth (heap s' ! hd (nodes s')) = depth (heap s ! hd (nodes s))"
    unfolding hd' by (rule n(3))
  show "depth (heap s' ! last (nodes s')) = Depth c" using n(4) by (simp add: ns)
qed

lemma callLoop_wf:
  "reach_inv t done s \<Longrightarrow> depth_inv s \<Longrightarrow> nodes s \<noteq> [] \<Longrightarrow>
   sint (depth (heap s ! hd (nodes s))) = 0 \<Longrightarrow>
   wf_from (sint (depth (heap s ! last (nodes s)))) cs \<Longrightarrow>
   length done + length cs \<le> length (InternalTxReturns t) \<Longrightarrow>
   \<exists>s'. callLoop s cs = Inr s'"
proof (induction cs arbitrary: s "done")
  case Nil
  then show ?case by simp
next
  case (Cons c cs)
  from Cons.prems(5) have d: "1 \<le> sint (Depth c)"
    "sint (Depth c) \<le> sint (depth (heap s ! last (nodes s))) + 1"
    and wf: "wf_from (sint (Depth c)) cs" by simp_all
  from Cons.prems(6) have cnt: "length done < length (InternalTxReturns t)" by simp
  from callStep_wf [OF Cons.prems(1-4) d cnt] obtain s1 where st: "callStep s c = Inr s1" by blast
  from Cons.prems(1) have valid: "\<forall>a\<in>set (nodes s). a < length (heap s)"
    by (simp add: reach_inv_def)
  from callStep_Inr [OF st Cons.prems(3) valid] obtain m where "stepped m s c s1" by blast
  note e = stepped_ends [OF this valid]
  have r1: "reach_inv t (done @ [c]) s1" by (rule reach_inv_step [OF Cons.prems(1) st])
  have d1: "depth_inv s1" using d(1) by (intro depth_inv_step [OF Cons.prems(2,1) st]) simp
  have "\<exists>s'. callLoop s1 cs = Inr s'"
    using Cons.prems(4,6) wf e by (intro Cons.IH [OF r1 d1]) simp_all
  then show ?case using st by simp
qed

lemma build_wf:
  assumes "wellFormed t"
  shows "\<exists>r h t'. buildCallStack t = Inr (r, h, t')"
proof -
  from assms obtain c cs where calls: "InternalTxCalls t = c # cs"
    and c0: "Depth c = 0" and wf: "wf_from 0 cs"
    and len: "length (InternalTxReturns t) = length (InternalTxCalls t)"
    by (auto simp: wellFormed_def split: list.splits)
  let ?s0 = "\<lparr>heap = [newNode c], nodes = [0], tx = t\<rparr>"
  have st: "callStep (init t) c = Inr ?s0" by (simp add: callStep_first init_def)
  have r0: "reach_inv t ([] @ [c]) ?s0" by (rule reach_inv_step [OF reach_inv_init st])
  have d0: "depth_inv ?s0"
    by (rule depth_inv_step [OF depth_inv_init reach_inv_init st]) (simp add: c0)
  have "\<exists>s'. callLoop ?s0 cs = Inr s'"
    using wf len by (intro callLoop_wf [OF r0 d0]) (simp_all add: newNode_def c0 calls)
  then obtain s where lp: "callLoop ?s0 cs = Inr s" by blast
  with st have lp': "callLoop (init t) (InternalTxCalls t) = Inr s" by (simp add: calls)
  from reach_inv_loop [OF reach_inv_init lp'] have r: "reach_inv t (InternalTxCalls t) s" by simp
  then have ne: "nodes s \<noteq> []" by (simp add: reach_inv_def calls)
  from r len have "length (nodes s) \<le> length (InternalTxReturns (tx s))"
    by (simp add: reach_inv_def)
  from drainLoop_ok [OF this] obtain s' where "drainLoop s = Inr s'" by blast
  with lp' ne show ?thesis by (cases "nodes s") (simp_all add: buildCallStack_def)
qed

section \<open>An evaluated trace\<close>


section \<open>Rendering and labelling\<close>










section \<open>The two-by-two trace\<close>

lemma list7: "length xs = 7 \<Longrightarrow> \<exists>a b c d e f g. xs = [a, b, c, d, e, f, g]"
  by (simp add: eval_nat_numeral length_Suc_conv) blast

lemma map7:
  "map f xs = [a, b, c, d, e, g, h] \<Longrightarrow>
   \<exists>x0 x1 x2 x3 x4 x5 x6. xs = [x0, x1, x2, x3, x4, x5, x6] \<and> f x0 = a \<and> f x1 = b \<and>
      f x2 = c \<and> f x3 = d \<and> f x4 = e \<and> f x5 = g \<and> f x6 = h"
  by (simp add: map_eq_Cons_conv) blast

lemma build_fanout:
  assumes cs: "InternalTxCalls t = [c0, c1, c2, c3, c4, c5, c6]"
    and d: "Depth c0 = 0" "Depth c1 = 1" "Depth c2 = 2" "Depth c3 = 2" "Depth c4 = 1"
      "Depth c5 = 2" "Depth c6 = 2"
    and rs: "InternalTxReturns t = [r0, r1, r2, r3, r4, r5, r6]"
  shows "buildCallStack t =
     Inr (0, [resolve r6 ((newNode c0)\<lparr>Calls := [1, 4]\<rparr>),
              resolve r2 ((newNode c1)\<lparr>Calls := [2, 3]\<rparr>),
              resolve r0 (newNode c2),
              resolve r1 (newNode c3),
              resolve r5 ((newNode c4)\<lparr>Calls := [5, 6]\<rparr>),
              resolve r3 (newNode c5),
              resolve r4 (newNode c6)], t\<lparr>InternalTxReturns := []\<rparr>)"
  by (simp add: buildCallStack_def init_def cs rs d callStep_def newNode_def appendCall_def
      popLoop.simps drainLoop.simps resolve_def)

lemma fanout_paths:
  assumes "kd (1::nat) = MutatingCall" "kd 2 = MutatingCall" "kd 3 = ReadOnlyCall"
      "kd 4 = MutatingCall" "kd 5 = MutatingCall" "kd 6 = ReadOnlyCall"
  shows "map snd (pathLabeler kd
              (Tree 0 [Tree (1::nat) [Tree 2 [], Tree 3 []], Tree 4 [Tree 5 [], Tree 6 []]])) =
             [''call_0'', ''call_0_0'', ''call_0_0_0'', ''staticcall_0_0_1'',
              ''call_0_1'', ''call_0_1_0'', ''staticcall_0_1_1'']"
  using assms by (simp add: pathLabeler_def kindName_def decimal.simps digitChar_def)



section \<open>The panics of a run\<close>

lemma popLoop_Inl:
  "popLoop i n s l = Inl e \<Longrightarrow> nodes s \<noteq> [] \<Longrightarrow> e = IndexOutOfRange"
proof (induction i n s l rule: popLoop.induct)
  case (1 i n s lastNode)
  from 1(2) have le: "sint i \<le> sint n" by (auto simp: popLoop.simps split: if_splits)
  show ?case
  proof (cases "InternalTxReturns (tx s)")
    case Nil
    with 1(2) le show ?thesis by (simp add: popLoop.simps)
  next
    case (Cons r rest)
    show ?thesis
    proof (cases "butlast (nodes s) = []")
      case True
      with 1(2,3) le Cons show ?thesis by (simp add: popLoop.simps)
    next
      case False
      let ?s1 = "s\<lparr>tx := (tx s)\<lparr>InternalTxReturns := rest\<rparr>,
                  heap := (heap s)[lastNode := resolve r (heap s ! lastNode)],
                  nodes := butlast (nodes s)\<rparr>"
      from 1(2,3) le Cons False
      have run: "popLoop (i + 1) n ?s1 (last (butlast (nodes s))) = Inl e"
        by (subst (asm) popLoop.simps) simp
      from 1(1) [OF le Cons 1(3) False run] False show ?thesis by simp
    qed
  qed
qed

lemma callStep_Inl:
  assumes "callStep s c = Inl e"
  shows "e = IndexOutOfRange \<or>
         (nodes s \<noteq> [] \<and> e = DepthError (depth (heap s ! last (nodes s))) (Depth c) \<and>
          sint (depth (heap s ! last (nodes s))) + 1 < sint (Depth c))"
proof -
  let ?top = "depth (heap s ! last (nodes s))"
  from assms have ne: "nodes s \<noteq> []" and neq: "Depth c \<noteq> ?top + 1"
    by (auto simp: callStep_def Let_def split: if_splits)
  show ?thesis
  proof (cases "sint (Depth c) \<le> sint ?top")
    case True
    with assms ne neq have
      "popLoop 0 (?top - Depth c) (s\<lparr>heap := heap s @ [newNode c]\<rparr>) (last (nodes s)) = Inl e"
      by (auto simp: callStep_def Let_def split: sum.splits)
    from popLoop_Inl [OF this] ne show ?thesis by simp
  next
    case False
    with assms ne neq have e: "e = DepthError ?top (Depth c)"
      by (simp add: callStep_def Let_def)
    have "sint ?top + 1 < sint (Depth c)"
    proof (rule ccontr)
      assume "\<not> sint ?top + 1 < sint (Depth c)"
      with False have eq: "sint (Depth c) = sint ?top + 1" by simp
      with sint32_bounds [of "Depth c"] have "sint ?top < 2147483647" by simp
      then have "sint (?top + 1) = sint ?top + 1" by (rule sint32_succ)
      with eq have "Depth c = ?top + 1" by (intro sint32_inj) simp
      with neq show False by simp
    qed
    with e ne show ?thesis by simp
  qed
qed

lemma callStep_top:
  assumes r: "reach_inv t done s" and run: "callStep s c = Inr s'"
  shows "nodes s' \<noteq> [] \<and> depth (heap s' ! last (nodes s')) = Depth c"
proof (cases "nodes s = []")
  case True
  with r have "heap s = []" by (auto simp: reach_inv_def)
  with run True show ?thesis by (auto simp: callStep_first newNode_def)
next
  case False
  from r have valid: "\<forall>a\<in>set (nodes s). a < length (heap s)" by (simp add: reach_inv_def)
  from callStep_Inr [OF run False valid] obtain m where "stepped m s c s'" by blast
  from stepped_ends(1,4) [OF this valid] show ?thesis by simp
qed

lemma callLoop_Inl:
  "callLoop s cs = Inl e \<Longrightarrow> reach_inv t done s \<Longrightarrow>
   (done = [] \<and> nodes s = [] \<or>
    done \<noteq> [] \<and> nodes s \<noteq> [] \<and> depth (heap s ! last (nodes s)) = Depth (last done)) \<Longrightarrow>
   e = IndexOutOfRange \<or>
   (\<exists>pre c1 c2 post. done @ cs = pre @ c1 # c2 # post \<and>
      sint (Depth c1) + 1 < sint (Depth c2) \<and> e = DepthError (Depth c1) (Depth c2))"
proof (induction cs arbitrary: s "done")
  case Nil
  then show ?case by simp
next
  case (Cons c cs)
  show ?case
  proof (cases "callStep s c")
    case (Inl e')
    with Cons.prems(1) have e: "e' = e" by simp
    from callStep_Inl [OF Inl] show ?thesis
    proof
      assume "e' = IndexOutOfRange"
      with e show ?thesis by simp
    next
      assume a: "nodes s \<noteq> [] \<and> e' = DepthError (depth (heap s ! last (nodes s))) (Depth c) \<and>
          sint (depth (heap s ! last (nodes s))) + 1 < sint (Depth c)"
      with Cons.prems(3) have d: "done \<noteq> []"
        "depth (heap s ! last (nodes s)) = Depth (last done)" by auto
      from d(1) have "done @ c # cs = butlast done @ last done # c # cs" by simp
      with a d(2) e show ?thesis by metis
    qed
  next
    case (Inr s1)
    with Cons.prems(1) have lp: "callLoop s1 cs = Inl e" by simp
    have r1: "reach_inv t (done @ [c]) s1" by (rule reach_inv_step [OF Cons.prems(2) Inr])
    from callStep_top [OF Cons.prems(2) Inr]
    have top: "done @ [c] \<noteq> [] \<and> nodes s1 \<noteq> [] \<and>
        depth (heap s1 ! last (nodes s1)) = Depth (last (done @ [c]))" by simp
    from Cons.IH [OF lp r1] top show ?thesis by simp
  qed
qed

lemma drainLoop_Inl: "drainLoop s = Inl e \<Longrightarrow> e = IndexOutOfRange"
proof (induction s rule: drainLoop.induct)
  case (1 s)
  from 1(2) have ne: "nodes s \<noteq> []" by (auto simp: drainLoop.simps split: if_splits)
  show ?case
  proof (cases "InternalTxReturns (tx s)")
    case Nil
    with 1(2) ne show ?thesis by (simp add: drainLoop.simps)
  next
    case (Cons r rest)
    with 1(2) ne have "drainLoop (s\<lparr>nodes := butlast (nodes s),
                  tx := (tx s)\<lparr>InternalTxReturns := rest\<rparr>,
                  heap := (heap s)[last (nodes s) := resolve r (heap s ! last (nodes s))]\<rparr>) = Inl e"
      by (subst (asm) drainLoop.simps) simp
    from 1(1) [OF ne Cons this] show ?thesis .
  qed
qed

lemma build_Inl:
  assumes "buildCallStack t = Inl e"
  shows "e = IndexOutOfRange \<or>
         (\<exists>pre c1 c2 post. InternalTxCalls t = pre @ c1 # c2 # post \<and>
            sint (Depth c1) + 1 < sint (Depth c2) \<and> e = DepthError (Depth c1) (Depth c2))"
proof (cases "callLoop (init t) (InternalTxCalls t)")
  case (Inl e')
  with assms have "e' = e" by (simp add: buildCallStack_def)
  with Inl have lp: "callLoop (init t) (InternalTxCalls t) = Inl e" by simp
  have "nodes (init t) = []" by (simp add: init_def)
  with callLoop_Inl [OF lp reach_inv_init] show ?thesis by simp
next
  case (Inr s)
  show ?thesis
  proof (cases "nodes s")
    case Nil
    with assms Inr show ?thesis by (simp add: buildCallStack_def)
  next
    case (Cons n0 ns)
    with assms Inr have "drainLoop s = Inl e"
      by (auto simp: buildCallStack_def split: sum.splits)
    from drainLoop_Inl [OF this] show ?thesis by simp
  qed
qed

section \<open>The return events on the nodes\<close>

lemma set_postorder: "set (postorder t) = set (preorder t)"
  by (induction t) auto


lemma set_concat_postorder:
  "set (concat (map postorder ts)) = set (concat (map preorder ts))"
  by (simp add: set_postorder)





lemma result_of_resolve [simp]: "result_of (resolve r n) = r"
  by (simp add: result_of_def resolve_def)

lemma Calls_resolve [simp]: "Calls (resolve r n) = Calls n"
  by (simp add: resolve_def)














section \<open>The claims\<close>

subsection \<open>A call event that skips a level\<close>

text \<open>
  Claim C3. When the loop over the call events has run over the events \<open>pre\<close>, a call is
  open, and the next event lies more than one level below the call on top of the stack
  (its depth exceeds \<open>lastNode.depth + 1\<close>), then \<^verbatim>\<open>buildCallStack\<close> ends in the
  explicit panic of line 79 with the two depths, whatever events follow and whatever the
  return queue holds: it returns no node, so no partial tree. The depth sequence
  \<open>[0, 2]\<close> is the instance of the witness.
\<close>

theorem depth_skip_panics:
  assumes calls: "InternalTxCalls t = pre @ call # post"
    and reach: "callLoop (init t) pre = Inr s"
    and opened: "nodes s \<noteq> []"
    and skip: "sint (depth (heap s ! last (nodes s))) + 1 < sint (Depth call)"
  shows "buildCallStack t = Inl (DepthError (depth (heap s ! last (nodes s))) (Depth call))"
proof -
  let ?top = "depth (heap s ! last (nodes s))"
  have "sint ?top < 2147483647" using skip sint32_bounds [of "Depth call"] by simp
  then have "sint (?top + 1) = sint ?top + 1" by (rule sint32_succ)
  with skip have ne: "Depth call \<noteq> ?top + 1" by auto
  from skip have "\<not> sint (Depth call) \<le> sint ?top" by simp
  with ne opened have "callStep s call = Inl (DepthError ?top (Depth call))"
    by (simp add: callStep_def Let_def)
  with reach have "callLoop (init t) (pre @ call # post) = Inl (DepthError ?top (Depth call))"
    by (simp add: callLoop_append)
  then show ?thesis by (simp add: buildCallStack_def calls)
qed

theorem depth_skip_panics_witness:
  "buildCallStack (trace [0, 2] [5, 6]) = Inl (DepthError 0 2)"
  using depth_skip_panics [of "trace [0, 2] [5, 6]" "[callAt 0]" "callAt 2" "[]"
      "\<lparr>heap = [newNode (callAt 0)], nodes = [0], tx = trace [0, 2] [5, 6]\<rparr>"]
  by (simp add: trace_def callAt_def init_def callStep_def newNode_def)

subsection \<open>The empty trace\<close>

text \<open>
  Claim C4 says that the builder succeeds on the trace with no call event and no return
  event, with an empty result. It does not return: the loop over the call events leaves
  \<^verbatim>\<open>nodes\<close> empty, and \<^verbatim>\<open>node0 := nodes[0]\<close> of line 83 panics with an index out of
  range.
\<close>

theorem empty_trace_counterexample:
  "buildCallStack \<lparr>InternalTxCalls = [], InternalTxReturns = []\<rparr> = Inl IndexOutOfRange"
  by (simp add: buildCallStack_def init_def)

text \<open>
  Claim C4, amended. On every transaction without a call event, whatever its return
  queue holds, \<^verbatim>\<open>buildCallStack\<close> returns no root, not even a nil one: the run ends in
  the run-time panic of line 83.
\<close>

theorem no_call_event_panics:
  assumes "InternalTxCalls t = []"
  shows "buildCallStack t = Inl IndexOutOfRange"
  using assms by (simp add: buildCallStack_def init_def)

theorem no_call_event_panics_witness:
  "buildCallStack (trace [] []) = Inl IndexOutOfRange \<and>
   buildCallStack (trace [] [7]) = Inl IndexOutOfRange"
proof -
  have a: "InternalTxCalls (trace [] []) = []" and b: "InternalTxCalls (trace [] [7]) = []"
    by (simp_all add: trace_def)
  from no_call_event_panics [OF a] no_call_event_panics [OF b] show ?thesis by (rule conjI)
qed

subsection \<open>Too few return events\<close>

text \<open>
  Claim C5 says that the builder fails with a malformed-trace error when the return
  queue runs out before the stack is drained. The only error that the code raises is the
  panic of line 79, for a call event that skips a level. With two nested call events and
  one return event no event skips a level: the second round of the loop of lines 84 to
  92 reads \<^verbatim>\<open>tx.InternalTxReturns[0]\<close> on the empty queue, and the run ends in the
  run-time error of Go, an index out of range.
\<close>

theorem short_return_queue_counterexample:
  "buildCallStack (trace [0, 1] [7]) = Inl IndexOutOfRange"
  by (simp add: buildCallStack_def trace_def init_def callStep_def callAt_def returnWith_def
      newNode_def appendCall_def drainLoop.simps resolve_def)

text \<open>
  Claim C5, amended. Every node takes one event off the return queue when it leaves the
  stack, so on every transaction with fewer return events than call events
  \<^verbatim>\<open>buildCallStack\<close> returns no tree. The run ends in a run-time index error of Go (the
  code reads \<^verbatim>\<open>tx.InternalTxReturns[0]\<close> in lines 65 and 87 without a check of the
  queue), unless two consecutive call events skip a level before the queue runs out:
  then it ends in the panic of line 79, which carries the depths of the two events.
\<close>

theorem short_return_queue_panics:
  assumes "length (InternalTxReturns t) < length (InternalTxCalls t)"
  shows "buildCallStack t = Inl IndexOutOfRange \<or>
         (\<exists>pre c1 c2 post. InternalTxCalls t = pre @ c1 # c2 # post \<and>
            sint (Depth c1) + 1 < sint (Depth c2) \<and>
            buildCallStack t = Inl (DepthError (Depth c1) (Depth c2)))"
proof (cases "buildCallStack t")
  case (Inl e)
  from build_Inl [OF Inl] Inl show ?thesis by auto
next
  case (Inr res)
  then obtain r h t' where "buildCallStack t = Inr (r, h, t')" by (cases res) auto
  from build_consumes [OF this] assms show ?thesis by simp
qed

theorem short_return_queue_panics_witness:
  "(buildCallStack (trace [0, 1, 1] [7]) = Inl IndexOutOfRange \<or>
    (\<exists>pre c1 c2 post. InternalTxCalls (trace [0, 1, 1] [7]) = pre @ c1 # c2 # post \<and>
       sint (Depth c1) + 1 < sint (Depth c2) \<and>
       buildCallStack (trace [0, 1, 1] [7]) = Inl (DepthError (Depth c1) (Depth c2)))) \<and>
   (buildCallStack (trace [0, 2] []) = Inl IndexOutOfRange \<or>
    (\<exists>pre c1 c2 post. InternalTxCalls (trace [0, 2] []) = pre @ c1 # c2 # post \<and>
       sint (Depth c1) + 1 < sint (Depth c2) \<and>
       buildCallStack (trace [0, 2] []) = Inl (DepthError (Depth c1) (Depth c2))))"
proof -
  have a: "length (InternalTxReturns (trace [0, 1, 1] [7])) <
      length (InternalTxCalls (trace [0, 1, 1] [7]))"
    and b: "length (InternalTxReturns (trace [0, 2] [])) <
      length (InternalTxCalls (trace [0, 2] []))"
    by (simp_all add: trace_def)
  from short_return_queue_panics [OF a] short_return_queue_panics [OF b]
  show ?thesis by (rule conjI)
qed

subsection \<open>Surplus return events\<close>

text \<open>
  Claim C6 says that return events left over at the end make the builder fail. With one
  call event and two return events it succeeds: the second return event stays in
  \<^verbatim>\<open>tx.InternalTxReturns\<close>.
\<close>

theorem surplus_returns_counterexample:
  "buildCallStack (trace [0] [7, 8]) =
     Inr (0, [(newNode (callAt 0))\<lparr>GasLeft := 7\<rparr>], trace [0] [8])"
  by (simp add: buildCallStack_def trace_def init_def callStep_def callAt_def returnWith_def
      newNode_def drainLoop.simps resolve_def)

text \<open>
  Claim C6, amended. \<^verbatim>\<open>buildCallStack\<close> never looks at the return events it does not
  consume: when it succeeds on a transaction, it succeeds with the same root and the
  same store on the transaction with any further return events \<open>x\<close> at the end of the
  queue, and leaves them there.
\<close>

theorem surplus_returns_ignored:
  assumes "buildCallStack t = Inr (r, h, t')"
  shows "buildCallStack (t\<lparr>InternalTxReturns := InternalTxReturns t @ x\<rparr>) =
           Inr (r, h, t'\<lparr>InternalTxReturns := InternalTxReturns t' @ x\<rparr>)"
  using assms by (rule build_more)

theorem surplus_returns_ignored_witness:
  "buildCallStack (trace [0] [7]) = Inr (0, [(newNode (callAt 0))\<lparr>GasLeft := 7\<rparr>], trace [0] []) \<and>
   buildCallStack (trace [0] [7, 8, 9]) =
     Inr (0, [(newNode (callAt 0))\<lparr>GasLeft := 7\<rparr>], trace [0] [8, 9])"
proof -
  have a: "buildCallStack (trace [0] [7]) =
      Inr (0, [(newNode (callAt 0))\<lparr>GasLeft := 7\<rparr>], trace [0] [])"
    by (simp add: buildCallStack_def trace_def init_def callStep_def callAt_def returnWith_def
      newNode_def drainLoop.simps resolve_def)
  from surplus_returns_ignored [OF a, of "map returnWith [8, 9]"] a
  show ?thesis by (simp add: trace_def)
qed

subsection \<open>The transaction object after the run\<close>

text \<open>
  Claim C9 says that the builder does not modify its input. It re-slices
  \<^verbatim>\<open>tx.InternalTxReturns\<close> in lines 66 and 88: after a run on one call event and one
  return event the transaction object has an empty return queue, and a second run on
  the same object panics.
\<close>

theorem returns_consumed_counterexample:
  "buildCallStack (trace [0] [7]) =
     Inr (0, [(newNode (callAt 0))\<lparr>GasLeft := 7\<rparr>], trace [0] []) \<and>
   trace [0] [] \<noteq> trace [0] [7] \<and>
   buildCallStack (trace [0] []) = Inl IndexOutOfRange"
  by (simp add: buildCallStack_def trace_def init_def callStep_def callAt_def returnWith_def
      newNode_def drainLoop.simps resolve_def)

text \<open>
  Claim C9, amended. The result is a function of the two sequences of the transaction
  alone (the model has no other input). \<^verbatim>\<open>buildCallStack\<close> leaves \<^verbatim>\<open>tx.InternalTxCalls\<close>
  as it was, and it consumes its return events in place: after a successful run
  \<^verbatim>\<open>tx.InternalTxReturns\<close> has lost one event per call event from its front.
\<close>

theorem returns_consumed_in_place:
  assumes "buildCallStack t = Inr (r, h, t')"
  shows "InternalTxCalls t' = InternalTxCalls t \<and>
         InternalTxReturns t' = drop (length (InternalTxCalls t)) (InternalTxReturns t)"
  using build_consumes [OF assms] by simp

theorem returns_consumed_in_place_witness:
  "InternalTxCalls (trace [0] [8]) = InternalTxCalls (trace [0] [7, 8]) \<and>
   InternalTxReturns (trace [0] [8]) =
     drop (length (InternalTxCalls (trace [0] [7, 8]))) (InternalTxReturns (trace [0] [7, 8]))"
proof -
  have a: "buildCallStack (trace [0] [7, 8]) =
     Inr (0, [(newNode (callAt 0))\<lparr>GasLeft := 7\<rparr>], trace [0] [8])"
    by (simp add: buildCallStack_def trace_def init_def callStep_def callAt_def returnWith_def
      newNode_def drainLoop.simps resolve_def)
  from returns_consumed_in_place [OF a] show ?thesis .
qed

subsection \<open>A call event that ends open calls\<close>

text \<open>
  Claim C1 speaks of every later call event whose depth is at most that of the top of
  the stack. Two such events on which the round of the loop panics instead of attaching
  the new node: after the trace \<open>[0]\<close> an event of depth 0 (the only open call is
  popped, and \<^verbatim>\<open>nodes[len(nodes)-1]\<close> of line 71 is out of range), and after the trace
  \<open>[0, 1]\<close> an event of depth 1 when the return queue is empty (line 65).
\<close>

theorem pop_and_attach_counterexample:
  "callLoop (init (trace [0, 0] [7, 8])) [callAt 0] =
     Inr \<lparr>heap = [newNode (callAt 0)], nodes = [0], tx = trace [0, 0] [7, 8]\<rparr> \<and>
   callStep \<lparr>heap = [newNode (callAt 0)], nodes = [0], tx = trace [0, 0] [7, 8]\<rparr> (callAt 0) =
     Inl IndexOutOfRange \<and>
   callLoop (init (trace [0, 1, 1] [])) [callAt 0, callAt 1] =
     Inr \<lparr>heap = [(newNode (callAt 0))\<lparr>Calls := [1]\<rparr>, newNode (callAt 1)], nodes = [0, 1],
          tx = trace [0, 1, 1] []\<rparr> \<and>
   callStep \<lparr>heap = [(newNode (callAt 0))\<lparr>Calls := [1]\<rparr>, newNode (callAt 1)], nodes = [0, 1],
          tx = trace [0, 1, 1] []\<rparr> (callAt 1) = Inl IndexOutOfRange"
  by (simp add: trace_def init_def callStep_def callAt_def returnWith_def
      newNode_def appendCall_def popLoop.simps resolve_def)

text \<open>
  Claim C1, amended. Let the loop over the call events have reached a state with an open
  call, on events without negative depths, and let the next call event have a depth of at
  most that of the top of the stack. Put \<open>k = top.depth - depth + 1\<close>. When the stack
  holds more than \<open>k\<close> nodes and the return queue at least \<open>k\<close> events, the round
  succeeds; it pops exactly \<open>k\<close> nodes and takes \<open>k\<close> events off the front of the return
  queue; the \<open>j\<close>-th node from the top has become what \<^verbatim>\<open>resolve\<close> makes of it with
  the \<open>j\<close>-th event of the queue (output, remaining gas and status code); the node that
  is then on top has depth \<open>depth - 1\<close>; the new node is the last of its \<^verbatim>\<open>Calls\<close>
  and is pushed.
\<close>

theorem pop_and_attach:
  assumes reach: "callLoop (init t) pre = Inr s"
    and nonneg: "\<forall>e\<in>set pre. 0 \<le> sint (Depth e)"
    and opened: "nodes s \<noteq> []"
    and le: "sint (Depth call) \<le> sint (depth (heap s ! last (nodes s)))"
    and k: "k = nat (sint (depth (heap s ! last (nodes s))) - sint (Depth call) + 1)"
    and deep: "k < length (nodes s)"
    and enough: "k \<le> length (InternalTxReturns (tx s))"
  shows "\<exists>s'. callStep s call = Inr s' \<and>
           nodes s' = take (length (nodes s) - k) (nodes s) @ [length (heap s)] \<and>
           InternalTxReturns (tx s') = drop k (InternalTxReturns (tx s)) \<and>
           (\<forall>j<k. heap s' ! (rev (nodes s) ! j) =
                     resolve (InternalTxReturns (tx s) ! j) (heap s ! (rev (nodes s) ! j))) \<and>
           sint (depth (heap s' ! last (take (length (nodes s) - k) (nodes s)))) =
             sint (Depth call) - 1 \<and>
           Calls (heap s' ! last (take (length (nodes s) - k) (nodes s))) =
             Calls (heap s ! last (take (length (nodes s) - k) (nodes s))) @ [length (heap s)] \<and>
           heap s' ! length (heap s) = newNode call"
proof -
  let ?len = "length (nodes s)"
  from reach_inv_loop [OF reach_inv_init reach] have r: "reach_inv t pre s" by simp
  from depth_inv_loop [OF depth_inv_init reach_inv_init reach nonneg] have d: "depth_inv s" .
  from r have valid: "\<forall>a\<in>set (nodes s). a < length (heap s)" by (simp add: reach_inv_def)
  from callStep_pop [OF r d opened le k deep enough] obtain s' where
    step: "callStep s call = Inr s'" and st: "stepped k s call s'"
    and res: "\<forall>j<k. heap s' ! (rev (nodes s) ! j) =
                resolve (InternalTxReturns (tx s) ! j) (heap s ! (rev (nodes s) ! j))"
    and new: "heap s' ! length (heap s) = newNode call"
    and dp: "sint (depth (heap s' ! (nodes s ! (?len - Suc k)))) = sint (Depth call) - 1"
    by blast
  have "take (?len - k) (nodes s) \<noteq> []" using deep by auto
  then have "last (take (?len - k) (nodes s)) = take (?len - k) (nodes s) ! (?len - k - 1)"
    by (simp add: last_conv_nth)
  also have "\<dots> = nodes s ! (?len - Suc k)" using deep by simp
  finally have lp: "last (take (?len - k) (nodes s)) = nodes s ! (?len - Suc k)" .
  from st have "nodes s' = take (?len - k) (nodes s) @ [length (heap s)]"
    and "InternalTxReturns (tx s') = drop k (InternalTxReturns (tx s))"
    by (simp_all add: stepped_def)
  with step res new dp stepped_nth(6) [OF st valid] show ?thesis
    unfolding lp by blast
qed

theorem pop_and_attach_witness:
  "\<exists>s'. callStep \<lparr>heap = [(newNode (callAt 0))\<lparr>Calls := [1]\<rparr>,
                           (newNode (callAt 1))\<lparr>Calls := [2]\<rparr>, newNode (callAt 2)],
                   nodes = [0, 1, 2], tx = trace [0, 1, 2, 1] [5, 6, 7, 8]\<rparr> (callAt 1) = Inr s' \<and>
     nodes s' = [0, 3] \<and>
     InternalTxReturns (tx s') = map returnWith [7, 8] \<and>
     heap s' = [(newNode (callAt 0))\<lparr>Calls := [1, 3]\<rparr>,
                (newNode (callAt 1))\<lparr>GasLeft := 6, Calls := [2]\<rparr>,
                (newNode (callAt 2))\<lparr>GasLeft := 5\<rparr>,
                newNode (callAt 1)]"
proof -
  let ?t = "trace [0, 1, 2, 1] [5, 6, 7, 8]"
  let ?s = "\<lparr>heap = [(newNode (callAt 0))\<lparr>Calls := [1]\<rparr>,
                     (newNode (callAt 1))\<lparr>Calls := [2]\<rparr>, newNode (callAt 2)],
             nodes = [0, 1, 2], tx = ?t\<rparr>"
  have reach: "callLoop (init ?t) [callAt 0, callAt 1, callAt 2] = Inr ?s"
    by (simp add: trace_def init_def callStep_def callAt_def newNode_def appendCall_def)
  have nonneg: "\<forall>e\<in>set [callAt 0, callAt 1, callAt 2]. 0 \<le> sint (Depth e)"
    by (simp add: callAt_def)
  have "\<exists>s'. callStep ?s (callAt 1) = Inr s' \<and>
           nodes s' = take (length (nodes ?s) - 2) (nodes ?s) @ [length (heap ?s)] \<and>
           InternalTxReturns (tx s') = drop 2 (InternalTxReturns (tx ?s)) \<and>
           (\<forall>j<2. heap s' ! (rev (nodes ?s) ! j) =
                     resolve (InternalTxReturns (tx ?s) ! j) (heap ?s ! (rev (nodes ?s) ! j))) \<and>
           sint (depth (heap s' ! last (take (length (nodes ?s) - 2) (nodes ?s)))) =
             sint (Depth (callAt 1)) - 1 \<and>
           Calls (heap s' ! last (take (length (nodes ?s) - 2) (nodes ?s))) =
             Calls (heap ?s ! last (take (length (nodes ?s) - 2) (nodes ?s))) @ [length (heap ?s)] \<and>
           heap s' ! length (heap ?s) = newNode (callAt 1)"
    by (rule pop_and_attach [OF reach nonneg]) (simp_all add: callAt_def newNode_def trace_def)
  then obtain s' where step: "callStep ?s (callAt 1) = Inr s'" by blast
  moreover have "callStep ?s (callAt 1) =
     Inr \<lparr>heap = [(newNode (callAt 0))\<lparr>Calls := [1, 3]\<rparr>,
                (newNode (callAt 1))\<lparr>GasLeft := 6, Calls := [2]\<rparr>,
                (newNode (callAt 2))\<lparr>GasLeft := 5\<rparr>,
                newNode (callAt 1)], nodes = [0, 3],
          tx = trace [0, 1, 2, 1] [7, 8]\<rparr>"
    by (simp add: trace_def callStep_def callAt_def returnWith_def
      newNode_def appendCall_def popLoop.simps resolve_def)
  ultimately show ?thesis by (simp add: trace_def)
qed

subsection \<open>The tree of a well-formed trace\<close>

text \<open>
  Claim C7. On every well-formed trace \<^verbatim>\<open>buildCallStack\<close> returns a root; the tree
  behind it has as many nodes as the trace has call events; its pre-order lists the
  nodes in the order of their allocation, which is the order of the call events they
  were made from; and reading the call data off the nodes in pre-order gives the
  sequence of call events back.
\<close>

theorem wellformed_trace_tree:
  assumes "wellFormed t"
  shows "\<exists>r h t' tr. buildCallStack t = Inr (r, h, t') \<and>
           toTree (length h) h r = Some tr \<and>
           length (preorder tr) = length (InternalTxCalls t) \<and>
           preorder tr = [0..<length (InternalTxCalls t)] \<and>
           map (\<lambda>a. event_of (h ! a)) (preorder tr) = InternalTxCalls t"
proof -
  from build_wf [OF assms] obtain r h t' where b: "buildCallStack t = Inr (r, h, t')" by blast
  from build_tree [OF b] obtain tr where tr: "toTree (length h) h r = Some tr"
    "preorder tr = [0..<length h]" "map event_of h = InternalTxCalls t" by blast
  have "map (\<lambda>a. event_of (h ! a)) [0..<length h] = map event_of h"
    by (rule nth_equalityI) simp_all
  moreover have "length h = length (InternalTxCalls t)" using tr(3) by (metis length_map)
  ultimately show ?thesis using b tr by auto
qed

theorem wellformed_trace_tree_witness:
  "\<exists>r h t' tr. buildCallStack (trace [0, 1, 2, 2, 1, 2, 2] [1, 2, 3, 4, 5, 6, 7]) = Inr (r, h, t') \<and>
     toTree (length h) h r = Some tr \<and>
     length (preorder tr) = length (InternalTxCalls (trace [0, 1, 2, 2, 1, 2, 2] [1, 2, 3, 4, 5, 6, 7])) \<and>
     preorder tr = [0..<length (InternalTxCalls (trace [0, 1, 2, 2, 1, 2, 2] [1, 2, 3, 4, 5, 6, 7]))] \<and>
     map (\<lambda>a. event_of (h ! a)) (preorder tr) =
       InternalTxCalls (trace [0, 1, 2, 2, 1, 2, 2] [1, 2, 3, 4, 5, 6, 7])"
proof -
  have "wellFormed (trace [0, 1, 2, 2, 1, 2, 2] [1, 2, 3, 4, 5, 6, 7])"
    by (simp add: wellFormed_def trace_def callAt_def)
  then show ?thesis by (rule wellformed_trace_tree)
qed

subsection \<open>Parents and children\<close>



subsection \<open>The two-by-two scenario\<close>

text \<open>
  Claim C2. On every transaction whose call events have the depths
  \<open>[0, 1, 2, 2, 1, 2, 2]\<close> and that has seven return events (of any status; the builder
  does not read it), \<^verbatim>\<open>buildCallStack\<close> returns the root 0 and consumes the seven
  events; the tree behind the root has one root, two children of depth 1 and two
  children of depth 2 under each of them. When the second child of each pair of depth 2
  (nodes 3 and 6) is tagged read-only and the other children are tagged mutating, the
  labeler gives the paths \<open>call_0\<close>, \<open>call_0_0\<close>, \<open>call_0_0_0\<close>, \<open>staticcall_0_0_1\<close>,
  \<open>call_0_1\<close>, \<open>call_0_1_0\<close>, \<open>staticcall_0_1_1\<close> in pre-order.
\<close>

theorem two_by_two_fanout:
  assumes depths: "map Depth (InternalTxCalls t) = [0, 1, 2, 2, 1, 2, 2]"
    and rets: "length (InternalTxReturns t) = 7"
    and kinds: "kd 1 = MutatingCall" "kd 2 = MutatingCall" "kd 3 = ReadOnlyCall"
      "kd 4 = MutatingCall" "kd 5 = MutatingCall" "kd 6 = ReadOnlyCall"
  shows "\<exists>h tr. buildCallStack t = Inr (0, h, t\<lparr>InternalTxReturns := []\<rparr>) \<and>
           toTree (length h) h 0 = Some tr \<and>
           tr = Tree 0 [Tree 1 [Tree 2 [], Tree 3 []], Tree 4 [Tree 5 [], Tree 6 []]] \<and>
           map depth h = [0, 1, 2, 2, 1, 2, 2] \<and>
           map snd (pathLabeler kd tr) =
             [''call_0'', ''call_0_0'', ''call_0_0_0'', ''staticcall_0_0_1'',
              ''call_0_1'', ''call_0_1_0'', ''staticcall_0_1_1'']"
proof -
  from map7 [OF depths] obtain c0 c1 c2 c3 c4 c5 c6 where
    cs: "InternalTxCalls t = [c0, c1, c2, c3, c4, c5, c6]"
    and d: "Depth c0 = 0" "Depth c1 = 1" "Depth c2 = 2" "Depth c3 = 2" "Depth c4 = 1"
      "Depth c5 = 2" "Depth c6 = 2"
    by blast
  from list7 [OF rets] obtain r0 r1 r2 r3 r4 r5 r6 where
    rs: "InternalTxReturns t = [r0, r1, r2, r3, r4, r5, r6]"
    by blast
  let ?h = "[resolve r6 ((newNode c0)\<lparr>Calls := [1, 4]\<rparr>),
             resolve r2 ((newNode c1)\<lparr>Calls := [2, 3]\<rparr>),
             resolve r0 (newNode c2),
             resolve r1 (newNode c3),
             resolve r5 ((newNode c4)\<lparr>Calls := [5, 6]\<rparr>),
             resolve r3 (newNode c5),
             resolve r4 (newNode c6)]"
  let ?tr = "Tree 0 [Tree 1 [Tree 2 [], Tree 3 []], Tree 4 [Tree 5 [], Tree (6::nat) []]]"
  have b: "buildCallStack t = Inr (0, ?h, t\<lparr>InternalTxReturns := []\<rparr>)"
    by (rule build_fanout [OF cs d rs])
  have tr: "toTree (length ?h) ?h 0 = Some ?tr"
    by (simp add: numeral_eq_Suc resolve_def newNode_def)
  have dp: "map depth ?h = [0, 1, 2, 2, 1, 2, 2]"
    by (simp add: resolve_def newNode_def d)
  have lb: "map snd (pathLabeler kd ?tr) =
             [''call_0'', ''call_0_0'', ''call_0_0_0'', ''staticcall_0_0_1'',
              ''call_0_1'', ''call_0_1_0'', ''staticcall_0_1_1'']"
    by (rule fanout_paths [OF kinds])
  show ?thesis
    by (rule exI [of _ ?h], rule exI [of _ ?tr]) (intro conjI b tr dp lb refl)
qed

theorem two_by_two_fanout_witness:
  "\<exists>h tr. buildCallStack (trace [0, 1, 2, 2, 1, 2, 2] [1, 2, 3, 4, 5, 6, 7]) =
          Inr (0, h, trace [0, 1, 2, 2, 1, 2, 2] []) \<and>
        toTree (length h) h 0 = Some tr \<and>
        tr = Tree 0 [Tree 1 [Tree 2 [], Tree 3 []], Tree 4 [Tree 5 [], Tree 6 []]] \<and>
        map depth h = [0, 1, 2, 2, 1, 2, 2] \<and>
        map snd (pathLabeler (\<lambda>a. if a = 3 \<or> a = 6 then ReadOnlyCall else MutatingCall) tr) =
          [''call_0'', ''call_0_0'', ''call_0_0_0'', ''staticcall_0_0_1'',
           ''call_0_1'', ''call_0_1_0'', ''staticcall_0_1_1'']"
proof -
  let ?t = "trace [0, 1, 2, 2, 1, 2, 2] [1, 2, 3, 4, 5, 6, 7]"
  let ?kd = "\<lambda>a::nat. if a = 3 \<or> a = 6 then ReadOnlyCall else MutatingCall"
  have 1: "map Depth (InternalTxCalls ?t) = [0, 1, 2, 2, 1, 2, 2]"
    by (simp add: trace_def callAt_def)
  have 2: "length (InternalTxReturns ?t) = 7" by (simp add: trace_def)
  have 3: "?t\<lparr>InternalTxReturns := []\<rparr> = trace [0, 1, 2, 2, 1, 2, 2] []"
    by (simp add: trace_def)
  from two_by_two_fanout [of ?t ?kd, OF 1 2] show ?thesis
    unfolding 3 by simp
qed

subsection \<open>Gas used\<close>



end
